theory Spec2Isabelle
  imports
    Complex_Main
    "HOL-Library.Char_ord"
    "HOL-Library.List_Lexorder"
    "HOL-Library.Sublist"
    "HOL-Library.Multiset"
    "HOL-Library.Monad_Syntax"
begin

section \<open>Python values the model shares\<close>

text \<open>
  A Python \<open>str\<close> is modelled as a \<open>string\<close>, one \<open>char\<close> per character, so the model
  covers text over the code points 0 to 255. The functions of \<open>urllib.parse\<close> decode
  percent escapes into characters of any code point: for them, and for
  \<open>extract_product_id\<close>, a \<open>str\<close> is the list of its code points (\<open>ustring\<close> below).
\<close>

definition code_in :: "char \<Rightarrow> nat \<Rightarrow> nat \<Rightarrow> bool" where
  "code_in c lo hi \<longleftrightarrow> lo \<le> (of_char c :: nat) \<and> (of_char c :: nat) \<le> hi"

text \<open>
  The operations below are those of \<open>str\<close> that look at nothing but the equality of
  characters, so they are written for lists of any type of character.

  \<open>sub in s\<close> on strings.
\<close>

fun py_in :: "'a list \<Rightarrow> 'a list \<Rightarrow> bool" where
  "py_in sub [] = (sub = [])"
| "py_in sub (c # s) = (prefix sub (c # s) \<or> py_in sub s)"

text \<open>\<open>s.split(sep)\<close> for a separator that is not empty.\<close>

fun py_split :: "'a list \<Rightarrow> 'a list \<Rightarrow> 'a list list" where
  "py_split sep [] = [[]]"
| "py_split sep (c # s) =
     (if sep \<noteq> [] \<and> prefix sep (c # s)
      then [] # py_split sep (drop (length sep) (c # s))
      else (case py_split sep s of [] \<Rightarrow> [[c]] | w # ws \<Rightarrow> (c # w) # ws))"

text \<open>\<open>s.strip(c)\<close> for one character, and \<open>s.endswith(suffix)\<close>.\<close>

definition py_strip :: "'a \<Rightarrow> 'a list \<Rightarrow> 'a list" where
  "py_strip c s = rev (dropWhile (\<lambda>x. x = c) (rev (dropWhile (\<lambda>x. x = c) s)))"

definition py_endswith :: "'a list \<Rightarrow> 'a list \<Rightarrow> bool" where
  "py_endswith s suf \<longleftrightarrow> suffix suf s"

text \<open>
  \<open>s.partition(c)\<close> for one character: the text before the first \<open>c\<close> and the text after
  it (empty when \<open>s\<close> holds no \<open>c\<close>). \<open>s.split(c, 1)\<close> gives the same two parts when \<open>c\<close>
  occurs in \<open>s\<close>.
\<close>

definition before :: "'a \<Rightarrow> 'a list \<Rightarrow> 'a list" where
  "before c s = takeWhile (\<lambda>x. x \<noteq> c) s"

definition after :: "'a \<Rightarrow> 'a list \<Rightarrow> 'a list" where
  "after c s = drop 1 (dropWhile (\<lambda>x. x \<noteq> c) s)"

text \<open>
  A Python dict is modelled by the list of its items in insertion order, the keys
  distinct. \<open>dict_set k v d\<close> is the assignment \<open>d[k] = v\<close>: it replaces the value of a
  key the dict holds and appends a new key at the end. \<open>dict_merge a b\<close> is
  \<open>{**a, **b}\<close>.
\<close>

fun dict_set :: "'k \<Rightarrow> 'v \<Rightarrow> ('k \<times> 'v) list \<Rightarrow> ('k \<times> 'v) list" where
  "dict_set k v [] = [(k, v)]"
| "dict_set k v ((k', v') # d) = (if k' = k then (k, v) # d else (k', v') # dict_set k v d)"

definition dict_merge :: "('k \<times> 'v) list \<Rightarrow> ('k \<times> 'v) list \<Rightarrow> ('k \<times> 'v) list" where
  "dict_merge a b = foldl (\<lambda>d (k, v). dict_set k v d) a b"

section \<open>Python floats\<close>

text \<open>
  A Python \<open>float\<close> is an IEEE 754 binary64 number; the finite ones are rational numbers
  and are modelled as such. Every arithmetic operation on floats returns the exact result
  rounded to the nearest number with a 53-bit significand, ties to the even significand:
  this rounding is \<open>fl\<close>. The exponent is not bounded in the model, so overflow to
  infinity and the subnormal numbers below \<open>2 ^ -1022\<close> are not modelled.
\<close>

text \<open>Rounding to the nearest integer, ties to even: Python's \<open>round(x)\<close> on a float.\<close>

definition py_round :: "rat \<Rightarrow> int" where
  "py_round x =
     (let n = \<lfloor>x\<rfloor>; r = x - of_int n
      in if r < 1 / 2 then n
         else if 1 / 2 < r then n + 1
         else if even n then n else n + 1)"

text \<open>The number of binary digits of a positive integer (\<open>int.bit_length\<close>).\<close>

function bit_length :: "int \<Rightarrow> nat" where
  "bit_length n = (if n \<le> 0 then 0 else Suc (bit_length (n div 2)))"
  by pat_completeness auto
termination
  by (relation "measure nat") auto

declare bit_length.simps [simp del]

text \<open>
  \<open>binade x\<close> for \<open>x > 0\<close> is the exponent \<open>e\<close> with \<open>2 ^ e \<le> x < 2 ^ (e + 1)\<close>, found
  from the bit lengths of numerator and denominator.
\<close>

definition binade :: "rat \<Rightarrow> int" where
  "binade x =
     (let (n, d) = quotient_of x;
          e = int (bit_length n) - int (bit_length d)
      in if 2 powi e \<le> x then e else e - 1)"

definition fl :: "rat \<Rightarrow> rat" where
  "fl x =
     (if x = 0 then 0
      else (let ulp = 2 powi (binade \<bar>x\<bar> - 52)
            in of_int (py_round (x / ulp)) * ulp))"

text \<open>The operations on floats the code uses.\<close>

definition fsub :: "rat \<Rightarrow> rat \<Rightarrow> rat" where
  "fsub x y = fl (x - y)"

definition fmul :: "rat \<Rightarrow> rat \<Rightarrow> rat" where
  "fmul x y = fl (x * y)"

text \<open>\<open>x / y\<close> raises \<open>ZeroDivisionError\<close> for \<open>y = 0\<close>.\<close>

definition fdiv :: "rat \<Rightarrow> rat \<Rightarrow> rat option" where
  "fdiv x y = (if y = 0 then None else Some (fl (x / y)))"

section \<open>Link extractor (bot/utils.py): the link patterns\<close>

text \<open>
  The three character classes of \<open>re\<close> follow Python's tables for \<open>str\<close> patterns on the
  code points 0 to 255: \<open>\d\<close> is the ten ASCII digits, \<open>\s\<close> is \<open>str.isspace\<close>, \<open>\w\<close> is
  \<open>str.isalnum\<close> or the underscore.
\<close>

definition py_isdigit :: "char \<Rightarrow> bool" where
  "py_isdigit c \<longleftrightarrow> code_in c 0x30 0x39"

definition py_isspace :: "char \<Rightarrow> bool" where
  "py_isspace c \<longleftrightarrow>
     code_in c 0x09 0x0D \<or> code_in c 0x1C 0x20 \<or> code_in c 0x85 0x85 \<or> code_in c 0xA0 0xA0"

definition py_isword :: "char \<Rightarrow> bool" where
  "py_isword c \<longleftrightarrow>
     code_in c 0x30 0x39 \<or> code_in c 0x41 0x5A \<or> code_in c 0x61 0x7A \<or> code_in c 0x5F 0x5F \<or>
     code_in c 0xAA 0xAA \<or> code_in c 0xB2 0xB3 \<or> code_in c 0xB5 0xB5 \<or>
     code_in c 0xB9 0xBA \<or> code_in c 0xBC 0xBE \<or> code_in c 0xC0 0xD6 \<or>
     code_in c 0xD8 0xF6 \<or> code_in c 0xF8 0xFF"

text \<open>
  The fragment of regular expressions the four patterns are written in: literal text, a
  character class, a greedy \<open>+\<close> over a class, sequence, alternative \<open>|\<close> and a greedy
  optional group \<open>(?:...)?\<close>. The patterns hold no capturing group, anchor or
  look-around.
\<close>

datatype cls = Digit | Word | Space | Range char char | Union cls cls | Compl cls

primrec in_cls :: "cls \<Rightarrow> char \<Rightarrow> bool" where
  "in_cls Digit c = py_isdigit c"
| "in_cls Word c = py_isword c"
| "in_cls Space c = py_isspace c"
| "in_cls (Range lo hi) c = code_in c (of_char lo) (of_char hi)"
| "in_cls (Union a b) c = (in_cls a c \<or> in_cls b c)"
| "in_cls (Compl a) c = (\<not> in_cls a c)"

datatype regex =
    Lit string
  | Cls cls
  | Plus cls
  | Seq regex regex
  | Alt regex regex
  | Opt regex

text \<open>
  The backtracking matcher of \<open>re\<close>: \<open>rmatch r s\<close> lists what is left of \<open>s\<close> after each
  way \<open>r\<close> can match at its start, in the order the engine tries them (a greedy
  \<open>+\<close> tries the longest run first, an alternative its left branch first, an optional
  group its body first). The engine reports the first entry.
\<close>

primrec rmatch :: "regex \<Rightarrow> string \<Rightarrow> string list" where
  "rmatch (Lit l) s = (if prefix l s then [drop (length l) s] else [])"
| "rmatch (Cls c) s = (case s of [] \<Rightarrow> [] | x # xs \<Rightarrow> if in_cls c x then [xs] else [])"
| "rmatch (Plus c) s =
     map (\<lambda>k. drop k s) (rev [1 ..< Suc (length (takeWhile (in_cls c) s))])"
| "rmatch (Seq a b) s = concat (map (rmatch b) (rmatch a s))"
| "rmatch (Alt a b) s = rmatch a s @ rmatch b s"
| "rmatch (Opt a) s = rmatch a s @ [s]"

text \<open>\<open>re.match(pattern, s)\<close> is not \<open>None\<close>.\<close>

definition re_match :: "regex \<Rightarrow> string \<Rightarrow> bool" where
  "re_match r s \<longleftrightarrow> rmatch r s \<noteq> []"

text \<open>
  \<open>re.findall(pattern, s)\<close> for a pattern without groups: the matched texts, found left
  to right without overlap. After an empty match the engine searches again from the same
  place and refuses an empty match there (\<open>must_advance\<close>).
\<close>

function re_findall_from :: "regex \<Rightarrow> bool \<Rightarrow> string \<Rightarrow> string list" where
  "re_findall_from r must_advance s =
     (case find (\<lambda>rest. \<not> must_advance \<or> length rest < length s) (rmatch r s) of
        Some rest \<Rightarrow>
          take (length s - length rest) s #
            (if length rest < length s then re_findall_from r False rest
             else re_findall_from r True s)
      | None \<Rightarrow> (case s of [] \<Rightarrow> [] | _ # t \<Rightarrow> re_findall_from r False t))"
  by pat_completeness auto
termination
  by (relation "measure (\<lambda>(r, b, s). 2 * length s + (if b then 0 else 1))")
     (auto simp: find_Some_iff)

declare re_findall_from.simps [simp del]

definition re_findall :: "regex \<Rightarrow> string \<Rightarrow> string list" where
  "re_findall r s = re_findall_from r False s"

fun seqs :: "regex list \<Rightarrow> regex" where
  "seqs [] = Lit []"
| "seqs [r] = r"
| "seqs (r # rs) = Seq r (seqs rs)"

text \<open>\<open>https?://(?:www\.)?\<close>, the common head of patterns 1, 2 and 4.\<close>

definition scheme_www :: "regex list" where
  "scheme_www = [Lit ''http'', Opt (Lit ''s''), Lit ''://'', Opt (Lit ''www.'')]"

text \<open>\<open>(?:aliexpress\.com|(?:[a-z]{2}\.)?aliexpress\.com)\<close>\<close>

definition host_com :: regex where
  "host_com =
     Alt (Lit ''aliexpress.com'')
         (Seq (Opt (seqs [Cls (Range CHR ''a'' CHR ''z''), Cls (Range CHR ''a'' CHR ''z''),
                          Lit ''.'']))
              (Lit ''aliexpress.com''))"

definition ALIEXPRESS_LINK_PATTERNS :: "regex list" where
  "ALIEXPRESS_LINK_PATTERNS =
     [seqs (scheme_www @ [host_com, Lit ''/item/'', Plus (Union Digit Word), Lit ''.html'']),
      seqs (scheme_www @ [host_com, Lit ''/'', Plus Digit, Lit ''/'', Plus Digit, Lit ''.html'']),
      seqs [Lit ''http'', Opt (Lit ''s''), Lit ''://'', Opt (Lit ''s.''),
            Lit ''click.aliexpress.com/'', Plus (Compl Space)],
      seqs (scheme_www @ [Lit ''aliexpress.ru/item/'', Plus (Union Digit Word), Lit ''.html''])]"

definition extract_aliexpress_links :: "string \<Rightarrow> string list" where
  "extract_aliexpress_links text =
     (if text = [] then []
      else concat (map (\<lambda>pattern. re_findall pattern text) ALIEXPRESS_LINK_PATTERNS))"

definition is_valid_aliexpress_link :: "string \<Rightarrow> bool" where
  "is_valid_aliexpress_link link = list_ex (\<lambda>pattern. re_match pattern link) ALIEXPRESS_LINK_PATTERNS"

text \<open>
  The choice \<open>process_message\<close> (bot/handlers.py) makes among the extracted links: no
  link at all, the first valid one, or none valid (the \<open>else\<close> of its \<open>for\<close> loop).
\<close>

datatype selection = No_Links | Selected string | No_Valid_Link

definition select_link :: "string \<Rightarrow> selection" where
  "select_link text =
     (let links = extract_aliexpress_links text
      in if links = [] then No_Links
         else (case find is_valid_aliexpress_link links of
                 Some link \<Rightarrow> Selected link
               | None \<Rightarrow> No_Valid_Link))"

section \<open>Link extractor: the product id of a link\<close>

subsection \<open>Text of any code point\<close>

text \<open>
  A \<open>str\<close> as the list of its code points, integers from 0 to \<open>0x10FFFF\<close>; \<open>cp c\<close> is the
  code point of the character \<open>c\<close> and \<open>str s\<close> the text of the literal \<open>s\<close>. A \<open>bytes\<close>
  value is the list of its bytes, integers from 0 to 255.
\<close>

type_synonym ustring = "int list"

definition cp :: "char \<Rightarrow> int" where
  "cp c = of_char c"

definition str :: "string \<Rightarrow> ustring" where
  "str s = map cp s"

subsection \<open>\<open>urllib.parse.urlparse\<close> and \<open>parse_qs\<close>\<close>

text \<open>
  The two library functions \<open>extract_product_id\<close> calls, after CPython 3.11. Of the
  result of \<open>urlparse\<close> the source reads \<open>path\<close>, \<open>netloc\<close> and \<open>query\<close>.
\<close>

record parse_result =
  url_scheme :: ustring
  url_netloc :: ustring
  url_path :: ustring
  url_params :: ustring
  url_query :: ustring
  url_fragment :: ustring

definition ascii_alpha :: "int \<Rightarrow> bool" where
  "ascii_alpha c \<longleftrightarrow> (0x41 \<le> c \<and> c \<le> 0x5A) \<or> (0x61 \<le> c \<and> c \<le> 0x7A)"

definition scheme_char :: "int \<Rightarrow> bool" where
  "scheme_char c \<longleftrightarrow> ascii_alpha c \<or> (0x30 \<le> c \<and> c \<le> 0x39) \<or> c \<in> set (str ''+-.'')"

definition lower_char :: "int \<Rightarrow> int" where
  "lower_char c = (if 0x41 \<le> c \<and> c \<le> 0x5A then c + 32 else c)"

text \<open>
  \<open>urlsplit\<close> first drops leading characters up to the space (code 32) and removes every
  tab, carriage return and line feed.
\<close>

definition clean_url :: "ustring \<Rightarrow> ustring" where
  "clean_url url =
     filter (\<lambda>c. c \<notin> set [0x09, 0x0D, 0x0A]) (dropWhile (\<lambda>c. 0 \<le> c \<and> c \<le> 0x20) url)"

text \<open>
  The scheme: the text before the first colon, when it is not empty, starts with an ASCII
  letter and holds scheme characters only.
\<close>

definition split_scheme :: "ustring \<Rightarrow> ustring \<times> ustring" where
  "split_scheme url =
     (let head = before (cp CHR '':'') url
      in if cp CHR '':'' \<in> set url \<and> head \<noteq> [] \<and> ascii_alpha (hd head) \<and> list_all scheme_char head
         then (map lower_char head, drop (Suc (length head)) url)
         else ([], url))"

text \<open>\<open>_splitnetloc(url, 2)\<close> when the rest starts with \<open>//\<close>.\<close>

definition split_netloc :: "ustring \<Rightarrow> ustring \<times> ustring" where
  "split_netloc url =
     (if take 2 url = str ''//''
      then (takeWhile (\<lambda>c. c \<notin> set (str ''/?#'')) (drop 2 url),
            dropWhile (\<lambda>c. c \<notin> set (str ''/?#'')) (drop 2 url))
      else ([], url))"

text \<open>
  \<open>urlsplit\<close> raises \<open>ValueError\<close> for a netloc with one square bracket but not the other.
  For a netloc with both brackets it validates the bracketed host with the \<open>ipaddress\<close>
  module, and for a netloc with a character beyond ASCII it checks the NFKC normal form:
  these two library checks are the argument \<open>host_checks\<close>, consulted for such netlocs only.
\<close>

definition netloc_ok :: "(ustring \<Rightarrow> bool) \<Rightarrow> ustring \<Rightarrow> bool" where
  "netloc_ok host_checks netloc =
     (if (cp CHR ''['' \<in> set netloc) \<noteq> (cp CHR '']'' \<in> set netloc) then False
      else if cp CHR ''['' \<in> set netloc \<or> \<not> list_all (\<lambda>c. 0 \<le> c \<and> c \<le> 0x7F) netloc
           then host_checks netloc
           else True)"

text \<open>\<open>_splitparams\<close>: the path loses the parameters of its last segment.\<close>

definition splitparams :: "ustring \<Rightarrow> ustring \<times> ustring" where
  "splitparams url =
     (if cp CHR ''/'' \<in> set url
      then (let k = length url - Suc (length (takeWhile (\<lambda>c. c \<noteq> cp CHR ''/'') (rev url)));
                tail = drop k url
            in if cp CHR '';'' \<in> set tail
               then (take k url @ before (cp CHR '';'') tail, after (cp CHR '';'') tail)
               else (url, []))
      else (before (cp CHR '';'') url, after (cp CHR '';'') url))"

definition uses_params :: "ustring list" where
  "uses_params =
     map str
       ['''', ''ftp'', ''hdl'', ''prospero'', ''http'', ''imap'', ''https'', ''shttp'', ''rtsp'',
        ''rtsps'', ''rtspu'', ''sip'', ''sips'', ''mms'', ''sftp'', ''tel'']"

text \<open>\<open>urlparse(url)\<close>; \<open>None\<close> is the \<open>ValueError\<close>.\<close>

definition urlparse :: "(ustring \<Rightarrow> bool) \<Rightarrow> ustring \<Rightarrow> parse_result option" where
  "urlparse host_checks url =
     (let (scheme, rest) = split_scheme (clean_url url);
          (netloc, rest) = split_netloc rest
      in if \<not> netloc_ok host_checks netloc then None
         else
           (let fragment = after (cp CHR ''#'') rest;
                rest = before (cp CHR ''#'') rest;
                query = after (cp CHR ''?'') rest;
                rest = before (cp CHR ''?'') rest;
                (path, params) =
                   (if scheme \<in> set uses_params \<and> cp CHR '';'' \<in> set rest then splitparams rest
                    else (rest, []))
            in Some \<lparr>url_scheme = scheme, url_netloc = netloc, url_path = path,
                      url_params = params, url_query = query, url_fragment = fragment\<rparr>))"

subsection \<open>\<open>urllib.parse.unquote\<close>\<close>

text \<open>
  \<open>unquote_to_bytes\<close> on text that is all ASCII: a percent sign followed by two
  hexadecimal digits becomes the byte with that value.
\<close>

definition hex_value :: "int \<Rightarrow> int option" where
  "hex_value c =
     (if 0x30 \<le> c \<and> c \<le> 0x39 then Some (c - 0x30)
      else if 0x41 \<le> c \<and> c \<le> 0x46 then Some (c - 0x37)
      else if 0x61 \<le> c \<and> c \<le> 0x66 then Some (c - 0x57)
      else None)"

definition hex_pair :: "int \<Rightarrow> int \<Rightarrow> int option" where
  "hex_pair h1 h2 =
     (case (hex_value h1, hex_value h2) of
        (Some a, Some b) \<Rightarrow> Some (16 * a + b)
      | _ \<Rightarrow> None)"

fun unquote_to_bytes :: "ustring \<Rightarrow> int list" where
  "unquote_to_bytes (c # h1 # h2 # s) =
     (case (if c = cp CHR ''%'' then hex_pair h1 h2 else None) of
        Some decoded \<Rightarrow> decoded # unquote_to_bytes s
      | None \<Rightarrow> c # unquote_to_bytes (h1 # h2 # s))"
| "unquote_to_bytes s = s"

text \<open>
  \<open>bytes.decode('utf-8', 'replace')\<close>, after CPython's decoder: a well-formed sequence of
  one to four bytes gives its code point; a byte that cannot start a sequence, and the
  bytes of a sequence up to the one that cannot continue it (or up to the end of the
  data), give one replacement character \<open>U+FFFD\<close>, and decoding goes on after them.
\<close>

definition continuation :: "int \<Rightarrow> bool" where
  "continuation b \<longleftrightarrow> 0x80 \<le> b \<and> b < 0xC0"

text \<open>
  The second byte of a sequence of three or four bytes: a continuation byte that does
  not make the sequence an overlong form, a surrogate, or a code point above \<open>0x10FFFF\<close>.
\<close>

definition second_byte :: "int \<Rightarrow> int \<Rightarrow> bool" where
  "second_byte b1 b2 \<longleftrightarrow>
     continuation b2 \<and> \<not> (b1 = 0xE0 \<and> b2 < 0xA0) \<and> \<not> (b1 = 0xED \<and> 0xA0 \<le> b2)
     \<and> \<not> (b1 = 0xF0 \<and> b2 < 0x90) \<and> \<not> (b1 = 0xF4 \<and> 0x90 \<le> b2)"

fun utf8_decode :: "int list \<Rightarrow> ustring" where
  "utf8_decode [] = []"
| "utf8_decode (b1 # bs) =
     (if b1 < 0x80 then b1 # utf8_decode bs
      else if b1 < 0xC2 \<or> 0xF5 \<le> b1 then 0xFFFD # utf8_decode bs
      else if b1 < 0xE0 then
        (case bs of
           [] \<Rightarrow> [0xFFFD]
         | b2 # r2 \<Rightarrow>
             if \<not> continuation b2 then 0xFFFD # utf8_decode bs
             else ((b1 - 0xC0) * 0x40 + (b2 - 0x80)) # utf8_decode r2)
      else if b1 < 0xF0 then
        (case bs of
           [] \<Rightarrow> [0xFFFD]
         | b2 # r2 \<Rightarrow>
             if \<not> second_byte b1 b2 then 0xFFFD # utf8_decode bs
             else
               (case r2 of
                  [] \<Rightarrow> [0xFFFD]
                | b3 # r3 \<Rightarrow>
                    if \<not> continuation b3 then 0xFFFD # utf8_decode r2
                    else ((b1 - 0xE0) * 0x1000 + (b2 - 0x80) * 0x40 + (b3 - 0x80))
                           # utf8_decode r3))
      else
        (case bs of
           [] \<Rightarrow> [0xFFFD]
         | b2 # r2 \<Rightarrow>
             if \<not> second_byte b1 b2 then 0xFFFD # utf8_decode bs
             else
               (case r2 of
                  [] \<Rightarrow> [0xFFFD]
                | b3 # r3 \<Rightarrow>
                    if \<not> continuation b3 then 0xFFFD # utf8_decode r2
                    else
                      (case r3 of
                         [] \<Rightarrow> [0xFFFD]
                       | b4 # r4 \<Rightarrow>
                           if \<not> continuation b4 then 0xFFFD # utf8_decode r3
                           else ((b1 - 0xF0) * 0x40000 + (b2 - 0x80) * 0x1000
                                   + (b3 - 0x80) * 0x40 + (b4 - 0x80))
                                  # utf8_decode r4))))"

text \<open>
  \<open>unquote(string)\<close>: text without a percent sign is returned as it is. Otherwise the
  text is cut into its runs of ASCII characters and the characters between them; each
  run is unquoted to bytes and the bytes are decoded as UTF-8, the other characters are
  kept. \<open>run\<close> is the ASCII run read so far.
\<close>

fun unquote_runs :: "ustring \<Rightarrow> ustring \<Rightarrow> ustring" where
  "unquote_runs run [] = utf8_decode (unquote_to_bytes run)"
| "unquote_runs run (c # s) =
     (if 0 \<le> c \<and> c \<le> 0x7F then unquote_runs (run @ [c]) s
      else utf8_decode (unquote_to_bytes run) @ c # unquote_runs [] s)"

definition unquote :: "ustring \<Rightarrow> ustring" where
  "unquote s = (if cp CHR ''%'' \<notin> set s then s else unquote_runs [] s)"

definition unquote_plus :: "ustring \<Rightarrow> ustring" where
  "unquote_plus s = unquote (map (\<lambda>c. if c = cp CHR ''+'' then cp CHR '' '' else c) s)"

text \<open>
  \<open>parse_qsl(qs)\<close> with its defaults: fields are separated by \<open>&\<close>; an empty field and a
  field with an empty value are dropped.
\<close>

definition parse_field :: "ustring \<Rightarrow> (ustring \<times> ustring) list" where
  "parse_field name_value =
     (if name_value \<noteq> [] \<and> after (cp CHR ''='') name_value \<noteq> []
      then [(unquote_plus (before (cp CHR ''='') name_value),
             unquote_plus (after (cp CHR ''='') name_value))]
      else [])"

definition parse_qsl :: "ustring \<Rightarrow> (ustring \<times> ustring) list" where
  "parse_qsl qs = (if qs = [] then [] else concat (map parse_field (py_split (str ''&'') qs)))"

text \<open>\<open>parse_qs(qs)\<close>: the dict from each name to the list of its values.\<close>

definition parse_qs :: "ustring \<Rightarrow> (ustring \<times> ustring list) list" where
  "parse_qs qs =
     foldl (\<lambda>parsed_result (name, val).
              case map_of parsed_result name of
                Some vals \<Rightarrow> dict_set name (vals @ [val]) parsed_result
              | None \<Rightarrow> dict_set name [val] parsed_result)
       [] (parse_qsl qs)"

subsection \<open>\<open>extract_product_id\<close>\<close>

text \<open>
  One pass through the body of \<open>extract_product_id(link)\<close>: it either returns (\<open>None\<close>
  is Python's \<open>None\<close>, also returned when the \<open>try\<close> block catches an exception of the
  pass) or reaches the recursive call on the embedded target URL.
\<close>

datatype pass = Return "ustring option" | Recurse ustring

definition extract_pass :: "(ustring \<Rightarrow> bool) \<Rightarrow> ustring \<Rightarrow> pass" where
  "extract_pass host_checks link =
     (case urlparse host_checks link of
        None \<Rightarrow> Return None
      | Some parsed_url \<Rightarrow>
          if py_in (str ''item'') (url_path parsed_url) then
            (case py_split (str ''/item/'') (url_path parsed_url) of
               _ # after_item # _ \<Rightarrow>
                 (case py_split (str ''.'') after_item of
                    product_id # _ \<Rightarrow> Return (Some product_id)
                  | [] \<Rightarrow> Return None)
             | _ \<Rightarrow> Return None)
          else if url_netloc parsed_url = str ''s.click.aliexpress.com'' then
            (case map_of (parse_qs (url_query parsed_url)) (str ''dl_target_url'') of
               Some (target_url # _) \<Rightarrow> Recurse target_url
             | _ \<Rightarrow> Return None)
          else if 3 \<le> length (py_split (str ''/'') (url_path parsed_url)) then
            (case py_split (str ''/'') (py_strip (cp CHR ''/'') (url_path parsed_url)) of
               _ # second # _ \<Rightarrow>
                 if py_endswith second (str ''.html'')
                 then (case py_split (str ''.'') second of
                         product_id # _ \<Rightarrow> Return (Some product_id)
                       | [] \<Rightarrow> Return None)
                 else Return None
             | _ \<Rightarrow> Return None)
          else Return None)"

text \<open>
  The embedded target is shorter than the link it is read from: it is the decoded value
  of a field of the query, and the link holds the redirect host besides its query.
\<close>

lemma length_py_split: "w \<in> set (py_split sep s) \<Longrightarrow> length w \<le> length s"
proof (induction sep s arbitrary: w rule: py_split.induct)
  case (1 sep)
  then show ?case by simp
next
  case (2 sep c s)
  show ?case
  proof (cases "sep \<noteq> [] \<and> prefix sep (c # s)")
    case True
    have "py_split sep (c # s) = [] # py_split sep (drop (length sep) (c # s))"
      unfolding py_split.simps by (rule if_P [OF True])
    with "2.prems" consider "w = []" | "w \<in> set (py_split sep (drop (length sep) (c # s)))"
      by auto
    then show ?thesis
    proof cases
      case 1
      then show ?thesis by simp
    next
      case 2
      then have "length w \<le> length (drop (length sep) (c # s))"
        by (rule "2.IH"(1) [OF True])
      also have "\<dots> \<le> length (c # s)" by simp
      finally show ?thesis .
    qed
  next
    case False
    have eq: "py_split sep (c # s) =
        (case py_split sep s of [] \<Rightarrow> [[c]] | w # ws \<Rightarrow> (c # w) # ws)"
      unfolding py_split.simps by (rule if_not_P [OF False])
    show ?thesis
    proof (cases "py_split sep s")
      case Nil
      with eq "2.prems" show ?thesis by simp
    next
      case (Cons w' ws)
      with eq "2.prems" consider "w = c # w'" | "w \<in> set ws" by auto
      then show ?thesis
      proof cases
        case 1
        have "w' \<in> set (py_split sep s)" using Cons by simp
        then have "length w' \<le> length s" by (rule "2.IH"(2) [OF False])
        with 1 show ?thesis by simp
      next
        case 2
        then have "w \<in> set (py_split sep s)" using Cons by simp
        then have "length w \<le> length s" by (rule "2.IH"(2) [OF False])
        then show ?thesis by simp
      qed
    qed
  qed
qed

lemma length_unquote_to_bytes: "length (unquote_to_bytes s) \<le> length s"
  by (induction s rule: unquote_to_bytes.induct) (auto split: option.splits if_splits)

lemma utf8_decode_step:
  assumes shorter: "\<And>r. length r \<le> length bs \<Longrightarrow> length (utf8_decode r) \<le> length r"
  shows "length (utf8_decode (b1 # bs)) \<le> Suc (length bs)"
proof -
  have bs: "length (utf8_decode bs) \<le> length bs" by (rule shorter) simp
  show ?thesis
  proof (cases bs)
    case Nil
    then show ?thesis by (subst utf8_decode.simps(2)) (simp del: utf8_decode.simps(2))
  next
    case c2: (Cons b2 r2)
    have r2: "length (utf8_decode r2) \<le> length r2" by (rule shorter) (simp add: c2)
    show ?thesis
    proof (cases r2)
      case Nil
      with c2 bs show ?thesis by (subst utf8_decode.simps(2)) (simp del: utf8_decode.simps(2))
    next
      case c3: (Cons b3 r3)
      have r3: "length (utf8_decode r3) \<le> length r3" by (rule shorter) (simp add: c2 c3)
      show ?thesis
      proof (cases r3)
        case Nil
        with c2 c3 bs r2 show ?thesis
          by (subst utf8_decode.simps(2)) (simp del: utf8_decode.simps(2))
      next
        case c4: (Cons b4 r4)
        have r4: "length (utf8_decode r4) \<le> length r4" by (rule shorter) (simp add: c2 c3 c4)
        from bs r2 r3 r4 show ?thesis
          unfolding c2 c3 c4
          by (subst utf8_decode.simps(2)) (simp del: utf8_decode.simps(2))
      qed
    qed
  qed
qed

lemma length_utf8_decode: "length (utf8_decode bs) \<le> length bs"
proof (induction bs rule: length_induct)
  case (1 bs)
  show ?case
  proof (cases bs)
    case Nil
    then show ?thesis by simp
  next
    case (Cons b1 r)
    have "length (utf8_decode (b1 # r)) \<le> Suc (length r)"
      by (rule utf8_decode_step) (simp add: 1 Cons)
    with Cons show ?thesis by simp
  qed
qed

lemma length_unquote_runs: "length (unquote_runs run s) \<le> length run + length s"
proof (induction run s rule: unquote_runs.induct)
  case (1 run)
  have "length (utf8_decode (unquote_to_bytes run)) \<le> length (unquote_to_bytes run)"
    by (rule length_utf8_decode)
  also have "\<dots> \<le> length run" by (rule length_unquote_to_bytes)
  finally show ?case by simp
next
  case (2 run c s)
  have "length (utf8_decode (unquote_to_bytes run)) \<le> length (unquote_to_bytes run)"
    by (rule length_utf8_decode)
  also have "\<dots> \<le> length run" by (rule length_unquote_to_bytes)
  finally show ?case using 2 by auto
qed

lemma length_unquote: "length (unquote s) \<le> length s"
  using length_unquote_runs [of "[]" s] by (simp add: unquote_def)

lemma length_unquote_plus: "length (unquote_plus s) \<le> length s"
  using length_unquote [of "map (\<lambda>c. if c = cp CHR ''+'' then cp CHR '' '' else c) s"]
  by (simp add: unquote_plus_def)

lemma length_after: "length (after c s) \<le> length s"
  using length_dropWhile_le [of "\<lambda>x. x \<noteq> c" s] by (simp add: after_def)

lemma length_before: "length (before c s) \<le> length s"
  by (simp add: before_def length_takeWhile_le)

lemma length_parse_qsl:
  assumes "(name, val) \<in> set (parse_qsl qs)"
  shows "length val \<le> length qs"
proof -
  from assms obtain field where field: "field \<in> set (py_split (str ''&'') qs)"
    and val: "val = unquote_plus (after (cp CHR ''='') field)"
    by (auto simp: parse_qsl_def parse_field_def split: if_splits)
  have "length val \<le> length (after (cp CHR ''='') field)"
    unfolding val by (rule length_unquote_plus)
  also have "\<dots> \<le> length field" by (rule length_after)
  also have "\<dots> \<le> length qs" by (rule length_py_split [OF field])
  finally show ?thesis .
qed

lemma set_dict_set: "set (dict_set k v d) \<subseteq> insert (k, v) (set d)"
  by (induction k v d rule: dict_set.induct) auto

lemma parse_qs_values_aux:
  assumes "\<forall>(k, vs) \<in> set d. \<forall>v \<in> set vs. P v"
    and "\<forall>(name, val) \<in> set pairs. P val"
  shows "\<forall>(k, vs) \<in> set (foldl (\<lambda>parsed_result (name, val).
              case map_of parsed_result name of
                Some vals \<Rightarrow> dict_set name (vals @ [val]) parsed_result
              | None \<Rightarrow> dict_set name [val] parsed_result) d pairs). \<forall>v \<in> set vs. P v"
  using assms
proof (induction pairs arbitrary: d)
  case Nil
  then show ?case by simp
next
  case (Cons p pairs)
  obtain name val where p: "p = (name, val)" by (cases p)
  let ?d = "case map_of d name of
                Some vals \<Rightarrow> dict_set name (vals @ [val]) d
              | None \<Rightarrow> dict_set name [val] d"
  have "\<forall>(k, vs) \<in> set ?d. \<forall>v \<in> set vs. P v"
  proof (cases "map_of d name")
    case None
    with Cons.prems p set_dict_set [of name "[val]" d] show ?thesis by fastforce
  next
    case (Some vals)
    then have "(name, vals) \<in> set d" by (rule map_of_SomeD)
    with Cons.prems(1) have "\<forall>v \<in> set vals. P v" by auto
    with Some Cons.prems p set_dict_set [of name "vals @ [val]" d] show ?thesis by fastforce
  qed
  moreover have "\<forall>(name, val) \<in> set pairs. P val" using Cons.prems(2) by simp
  ultimately show ?case using Cons.IH [of ?d] p by simp
qed

lemma length_parse_qs:
  assumes "map_of (parse_qs qs) k = Some vs" and "v \<in> set vs"
  shows "length v \<le> length qs"
proof -
  have "\<forall>(k, vs) \<in> set (parse_qs qs). \<forall>v \<in> set vs. length v \<le> length qs"
    unfolding parse_qs_def
    by (rule parse_qs_values_aux) (auto dest: length_parse_qsl)
  moreover have "(k, vs) \<in> set (parse_qs qs)" using assms(1) by (rule map_of_SomeD)
  ultimately show ?thesis using assms(2) by auto
qed

lemma length_urlparse:
  assumes "urlparse host_checks link = Some parsed_url"
  shows "length (url_netloc parsed_url) + length (url_query parsed_url) \<le> length link"
proof -
  obtain scheme r1 where s: "split_scheme (clean_url link) = (scheme, r1)" by fastforce
  obtain netloc r2 where n: "split_netloc r1 = (netloc, r2)" by fastforce
  have "length (clean_url link) \<le> length link"
    unfolding clean_url_def
    by (rule le_trans [OF length_filter_le length_dropWhile_le])
  moreover have "length r1 \<le> length (clean_url link)"
    using s by (auto simp: split_scheme_def Let_def split: if_splits)
  moreover have "length netloc + length r2 \<le> length r1"
  proof (cases "take 2 r1 = str ''//''")
    case True
    with n have "netloc @ r2 = drop 2 r1" by (auto simp: split_netloc_def)
    then have "length netloc + length r2 = length (drop 2 r1)"
      by (metis length_append)
    then show ?thesis by simp
  next
    case False
    with n show ?thesis by (simp add: split_netloc_def)
  qed
  moreover have "length (after (cp CHR ''?'') (before (cp CHR ''#'') r2)) \<le> length r2"
    by (rule le_trans [OF length_after length_before])
  moreover have "url_netloc parsed_url = netloc"
    and "url_query parsed_url = after (cp CHR ''?'') (before (cp CHR ''#'') r2)"
    using assms s n
    by (auto simp: urlparse_def Let_def split: if_splits prod.splits)
  ultimately show ?thesis by simp
qed

lemma extract_pass_shorter:
  assumes "extract_pass host_checks link = Recurse target_url"
  shows "length target_url < length link"
proof -
  from assms obtain parsed_url rest where
    p: "urlparse host_checks link = Some parsed_url"
    and h: "url_netloc parsed_url = str ''s.click.aliexpress.com''"
    and q: "map_of (parse_qs (url_query parsed_url)) (str ''dl_target_url'') = Some (target_url # rest)"
    by (auto simp: extract_pass_def split: option.splits if_splits list.splits)
  have "length target_url \<le> length (url_query parsed_url)"
    by (rule length_parse_qs [OF q]) simp
  moreover have "length (url_netloc parsed_url) = 22" by (simp add: h str_def)
  ultimately show ?thesis using length_urlparse [OF p] by linarith
qed

text \<open>
  How many recursive calls the function makes on \<open>link\<close> when the interpreter lets it:
  the number of redirect links nested in each other that \<open>link\<close> starts. It is defined
  for every link because each target is shorter than the link it is read from.
\<close>

function nesting :: "(ustring \<Rightarrow> bool) \<Rightarrow> ustring \<Rightarrow> nat" where
  "nesting host_checks link =
     (case extract_pass host_checks link of
        Return product_id \<Rightarrow> 0
      | Recurse target_url \<Rightarrow> Suc (nesting host_checks target_url))"
  by pat_completeness auto
termination
proof (relation "measure (\<lambda>(host_checks, link). length link)")
  show "wf (measure (\<lambda>(host_checks :: ustring \<Rightarrow> bool, link :: ustring). length link))"
    by (rule wf_measure)
next
  fix host_checks :: "ustring \<Rightarrow> bool" and link target_url :: ustring
  assume "extract_pass host_checks link = Recurse target_url"
  then have "length target_url < length link"
    by (rule extract_pass_shorter)
  then show "((host_checks, target_url), (host_checks, link))
      \<in> measure (\<lambda>(host_checks, link). length link)"
    by simp
qed

declare nesting.simps [simp del]

text \<open>
  \<open>extract_product_id(link)\<close>: the pass above, with the recursive call on the target URL.
  The source sets no bound on the depth of the recursion; the interpreter does: a call
  nested deeper than its recursion limit (\<open>sys.getrecursionlimit()\<close>, 1000 unless changed,
  and the source never changes it) ends in a \<open>RecursionError\<close>. \<open>frames\<close> is the number
  of calls of the function, nested in each other, that the limit still leaves room for
  at the point of the call, each with the library calls of its pass. A call with no room
  left raises; the \<open>except Exception\<close> clause of the pass that made the call catches the
  error and that pass returns \<open>None\<close>.
\<close>

datatype error = RecursionError

fun extract_product_id :: "nat \<Rightarrow> (ustring \<Rightarrow> bool) \<Rightarrow> ustring \<Rightarrow> error + ustring option" where
  "extract_product_id 0 host_checks link = Inl RecursionError"
| "extract_product_id (Suc frames) host_checks link =
     Inr (case extract_pass host_checks link of
            Return product_id \<Rightarrow> product_id
          | Recurse target_url \<Rightarrow>
              (case extract_product_id frames host_checks target_url of
                 Inl e \<Rightarrow> None
               | Inr product_id \<Rightarrow> product_id))"

declare extract_product_id.simps [simp del]

section \<open>Commerce API client (bot/aliexpress.py): request signing\<close>

text \<open>
  \<open>str.upper\<close> on the output of \<open>hexdigest\<close>, which holds the characters 0-9 and a-f
  only: the ASCII letters are upper-cased.
\<close>

definition upper_char :: "char \<Rightarrow> char" where
  "upper_char c = (if code_in c 0x61 0x7A then char_of (of_char c - (32 :: nat)) else c)"

definition py_upper :: "string \<Rightarrow> string" where
  "py_upper s = map upper_char s"

text \<open>
  \<open>generate_signature(params)\<close>. The shared secret \<open>ALIEXPRESS_APP_SECRET\<close> comes from the
  environment, so it is an argument, as are the library functions the code calls:
  \<open>md5_hex x\<close> stands for \<open>hashlib.md5(x.encode()).hexdigest()\<close> and \<open>py_str\<close> for \<open>str\<close>
  on the values. \<open>sorted(params.items())\<close> orders the items of a dict by key (Python
  compares strings by code point, as the order on \<open>string\<close> here does); the keys of a dict
  are distinct, so the values are never compared. The loop is the \<open>for\<close> loop of the
  source, appending \<open>key + str(value)\<close> to the accumulator.
\<close>

definition generate_signature ::
  "string \<Rightarrow> (string \<Rightarrow> string) \<Rightarrow> ('v \<Rightarrow> string) \<Rightarrow> (string \<times> 'v) list \<Rightarrow> string" where
  "generate_signature secret md5_hex py_str params =
     (let sorted_params = sort_key fst params;
          concatenated = foldl (\<lambda>acc (key, val). acc @ (key @ py_str val)) secret sorted_params;
          concatenated = concatenated @ secret
      in py_upper (md5_hex concatenated))"

text \<open>
  The parameters \<open>make_api_request(method, params)\<close> posts: the common parameters merged
  with the method's own, then the signature of the merged dict stored under \<open>sign\<close>.
  \<open>app_key\<close> is \<open>ALIEXPRESS_APP_KEY\<close> and \<open>ts\<close> the text of
  \<open>str(int(time.time() * 1000))\<close>. All values are strings, on which \<open>str\<close> is the
  identity.
\<close>

definition common_params :: "string \<Rightarrow> string \<Rightarrow> string \<Rightarrow> (string \<times> string) list" where
  "common_params app_key method ts =
     [(''app_key'', app_key), (''method'', method), (''format'', ''json''), (''v'', ''2.0''),
      (''sign_method'', ''md5''), (''timestamp'', ts)]"

definition signed_params ::
  "string \<Rightarrow> (string \<Rightarrow> string) \<Rightarrow> string \<Rightarrow> string \<Rightarrow> string \<Rightarrow> (string \<times> string) list
     \<Rightarrow> (string \<times> string) list" where
  "signed_params secret md5_hex app_key ts method params =
     (let all_params = dict_merge (common_params app_key method ts) params
      in dict_set ''sign'' (generate_signature secret md5_hex (\<lambda>s. s) all_params) all_params)"

text \<open>
  The signature as the specification words it: for a listing \<open>ps\<close> of the parameters by
  ascending key, the upper-cased MD5 hex digest of the secret, then every key directly
  followed by its value's text, then the secret again.
\<close>

definition signature_by_spec ::
  "string \<Rightarrow> (string \<Rightarrow> string) \<Rightarrow> ('v \<Rightarrow> string) \<Rightarrow> (string \<times> 'v) list \<Rightarrow> string" where
  "signature_by_spec secret md5_hex py_str ps =
     py_upper (md5_hex (secret @ concat (map (\<lambda>(key, val). key @ py_str val) ps) @ secret))"

section \<open>Commerce API client: the rate limiter\<close>

text \<open>
  \<open>MAX_REQUESTS_PER_MINUTE\<close> of config.py. The limiter itself is modelled for any cap.
\<close>

definition MAX_REQUESTS_PER_MINUTE :: nat where
  "MAX_REQUESTS_PER_MINUTE = 30"

text \<open>
  The state is the module-level list \<open>request_timestamps\<close> together with the clock that
  \<open>time.time()\<close> reads, in seconds, as a real number. \<open>respect_rate_limit()\<close> reads the
  clock twice: on entry, and again when it appends its own timestamp.
  \<open>asyncio.sleep(wait_time)\<close> moves the clock forward by \<open>wait_time\<close>; \<open>lag\<close> is whatever
  further time passes between the two readings. The result \<open>None\<close> is the \<open>IndexError\<close>
  of \<open>request_timestamps[0]\<close> on an empty list, which needs a cap of 0.
\<close>

record limiter =
  clock :: real
  request_timestamps :: "real list"

definition respect_rate_limit :: "nat \<Rightarrow> real \<Rightarrow> limiter \<Rightarrow> limiter option" where
  "respect_rate_limit cap lag s =
     (let current_time = clock s;
          kept = filter (\<lambda>ts. current_time - ts < 60) (request_timestamps s)
      in if cap \<le> length kept then
           (case kept of
              [] \<Rightarrow> None
            | oldest # _ \<Rightarrow>
                (let wait_time = 60 - (current_time - oldest);
                     woken = (if 0 < wait_time then current_time + wait_time else current_time)
                 in Some \<lparr>clock = woken + lag, request_timestamps = kept @ [woken + lag]\<rparr>))
         else Some \<lparr>clock = current_time + lag, request_timestamps = kept @ [current_time + lag]\<rparr>)"

text \<open>
  Requests issued one after the other. Each is given as (\<open>gap\<close>, \<open>lag\<close>): the time that
  passes before the call, and the lag inside it. The result lists, per request, the
  timestamp it recorded.
\<close>

fun dispatch_times :: "nat \<Rightarrow> (real \<times> real) list \<Rightarrow> limiter \<Rightarrow> real list option" where
  "dispatch_times cap [] s = Some []"
| "dispatch_times cap ((gap, lag) # requests) s =
     (case respect_rate_limit cap lag (s\<lparr>clock := clock s + gap\<rparr>) of
        None \<Rightarrow> None
      | Some s' \<Rightarrow> map_option (\<lambda>ds. clock s' # ds) (dispatch_times cap requests s'))"

text \<open>
  The states the limiter can be in: it starts with an empty window, time passes between
  calls, and calls are made one after the other.
\<close>

inductive reachable :: "nat \<Rightarrow> limiter \<Rightarrow> bool" for cap :: nat where
  start: "reachable cap \<lparr>clock = t, request_timestamps = []\<rparr>"
| idle: "reachable cap s \<Longrightarrow> 0 \<le> gap \<Longrightarrow> reachable cap (s\<lparr>clock := clock s + gap\<rparr>)"
| call: "reachable cap s \<Longrightarrow> 0 \<le> lag \<Longrightarrow> respect_rate_limit cap lag s = Some s' \<Longrightarrow>
         reachable cap s'"

text \<open>
  An invariant of the reachable states: the window is in ascending order, holds no
  timestamp of the future, and after the purge at most \<open>cap\<close> timestamps are left.
\<close>

definition window_ok :: "nat \<Rightarrow> limiter \<Rightarrow> bool" where
  "window_ok cap s \<longleftrightarrow>
     sorted (request_timestamps s) \<and>
     (\<forall>t \<in> set (request_timestamps s). t \<le> clock s) \<and>
     length (filter (\<lambda>ts. clock s - ts < 60) (request_timestamps s)) \<le> cap"

text \<open>
  What is known of the window \<open>k\<close> requests after the one that recorded \<open>first\<close>: while
  less than 60 seconds have passed since \<open>first\<close>, the window ends with \<open>first\<close> and the
  \<open>k - 1\<close> timestamps recorded after it.
\<close>

definition window_since :: "nat \<Rightarrow> real \<Rightarrow> nat \<Rightarrow> limiter \<Rightarrow> bool" where
  "window_since cap first k s \<longleftrightarrow>
     window_ok cap s \<and> first \<le> clock s \<and>
     (clock s - first < 60 \<longrightarrow>
        (\<exists>old rest. request_timestamps s = old @ first # rest \<and> Suc (length rest) = k))"

section \<open>Commerce API client: reading the responses\<close>

subsection \<open>JSON values and the Python operations on them\<close>

text \<open>
  What \<open>json.loads\<close> and \<open>response.json()\<close> return: \<open>None\<close>, a bool, a number, a
  string, a list, or a dict with string keys (the list of its items, keys distinct). A
  number is an \<open>int\<close> or a finite \<open>float\<close>, both rational.
\<close>

datatype json =
    JNull
  | JBool bool
  | JNum rat
  | JStr string
  | JArr "json list"
  | JObj "(string \<times> json) list"

text \<open>The truth value of an object, as \<open>if x\<close> and \<open>not x\<close> take it.\<close>

fun truthy :: "json \<Rightarrow> bool" where
  "truthy JNull = False"
| "truthy (JBool b) = b"
| "truthy (JNum x) = (x \<noteq> 0)"
| "truthy (JStr s) = (s \<noteq> [])"
| "truthy (JArr xs) = (xs \<noteq> [])"
| "truthy (JObj items) = (items \<noteq> [])"

text \<open>
  In the following operations the result \<open>None\<close> stands for a raised exception
  (\<open>TypeError\<close>, \<open>KeyError\<close>, \<open>IndexError\<close>, \<open>AttributeError\<close>, \<open>ValueError\<close>); the code
  catches them all alike with \<open>except Exception\<close>.

  \<open>key in obj\<close> for a string \<open>key\<close>: a key of a dict, an element of a list, a substring
  of a string; a \<open>TypeError\<close> on the rest.
\<close>

fun py_contains :: "string \<Rightarrow> json \<Rightarrow> bool option" where
  "py_contains key (JObj items) = Some (key \<in> fst ` set items)"
| "py_contains key (JArr xs) = Some (JStr key \<in> set xs)"
| "py_contains key (JStr s) = Some (py_in key s)"
| "py_contains key _ = None"

text \<open>\<open>obj[key]\<close> for a string \<open>key\<close>: only a dict can be indexed so.\<close>

fun py_getitem :: "json \<Rightarrow> string \<Rightarrow> json option" where
  "py_getitem (JObj items) key = map_of items key"
| "py_getitem _ key = None"

text \<open>\<open>obj[0]\<close>: the first element of a list, the first character of a string.\<close>

fun py_first :: "json \<Rightarrow> json option" where
  "py_first (JArr (x # _)) = Some x"
| "py_first (JStr (c # _)) = Some (JStr [c])"
| "py_first _ = None"

text \<open>\<open>obj.get(key, default)\<close>: only a dict has the method.\<close>

fun py_get :: "json \<Rightarrow> string \<Rightarrow> json \<Rightarrow> json option" where
  "py_get (JObj items) key dflt =
     Some (case map_of items key of None \<Rightarrow> dflt | Some v \<Rightarrow> v)"
| "py_get _ key dflt = None"

text \<open>
  \<open>json.loads(x)\<close>: the decoder itself is the argument \<open>json_loads\<close>, \<open>None\<close> for text
  that is not JSON; anything but a string is a \<open>TypeError\<close>.
\<close>

fun py_json_loads :: "(string \<Rightarrow> json option) \<Rightarrow> json \<Rightarrow> json option" where
  "py_json_loads json_loads (JStr s) = json_loads s"
| "py_json_loads json_loads _ = None"

text \<open>
  \<open>float(x)\<close>: a float is itself and an \<open>int\<close> is rounded to the nearest float, an
  \<open>OverflowError\<close> when that is beyond the largest float; \<open>True\<close> and \<open>False\<close> are 1
  and 0, and a string is parsed, by the argument \<open>str_float\<close> (\<open>None\<close> for text that is
  no number).
\<close>

fun py_float :: "(string \<Rightarrow> rat option) \<Rightarrow> json \<Rightarrow> rat option" where
  "py_float str_float (JNum x) = (if \<bar>fl x\<bar> < 2 ^ 1024 then Some (fl x) else None)"
| "py_float str_float (JBool b) = Some (if b then 1 else 0)"
| "py_float str_float (JStr s) = str_float s"
| "py_float str_float _ = None"

subsection \<open>\<open>make_api_request\<close>\<close>




definition AE_DS_PRODUCT_GET :: string where
  "AE_DS_PRODUCT_GET = ''aliexpress.ds.product.get''"

subsection \<open>\<open>convert_to_affiliate_link\<close>\<close>



subsection \<open>\<open>get_product_details\<close>\<close>

text \<open>The dict \<open>get_product_details\<close> returns; the optional keys are optional fields.\<close>

record product_details =
  title :: json
  price :: rat
  product_id :: string
  original_price :: "rat option"
  rating :: "rat option"
  shipping_cost :: "rat option"

text \<open>\<open>float(obj.get(key, {}).get('amount', 0))\<close>\<close>

definition amount_of :: "(string \<Rightarrow> rat option) \<Rightarrow> json \<Rightarrow> string \<Rightarrow> rat option" where
  "amount_of str_float product_obj key =
     do {
       money \<leftarrow> py_get product_obj key (JObj []);
       amount \<leftarrow> py_get money ''amount'' (JNum 0);
       py_float str_float amount
     }"

text \<open>
  The \<open>try\<close> block of \<open>get_product_details\<close>, given the product id and the response:
  \<open>None\<close> when it returns \<open>None\<close> or an exception is raised.
\<close>

definition product_of_response ::
  "(string \<Rightarrow> json option) \<Rightarrow> (string \<Rightarrow> rat option) \<Rightarrow> string \<Rightarrow> json
     \<Rightarrow> product_details option" where
  "product_of_response json_loads str_float pid response =
     do {
       let result_key = AE_DS_PRODUCT_GET @ ''_response'';
       has_key \<leftarrow> py_contains result_key response;
       if \<not> has_key then None
       else do {
         result \<leftarrow> py_getitem response result_key;
         has_result \<leftarrow> py_contains ''result'' result;
         if \<not> has_result then None
         else do {
           result_text \<leftarrow> py_getitem result ''result'';
           if \<not> truthy result_text then None
           else do {
             products \<leftarrow> py_json_loads json_loads result_text;
             if \<not> truthy products then None
             else do {
               has_products \<leftarrow> py_contains ''products'' products;
               if \<not> has_products then None
               else do {
                 product_list \<leftarrow> py_getitem products ''products'';
                 if \<not> truthy product_list then None
                 else do {
                   product_obj \<leftarrow> py_first product_list;
                   sale_price \<leftarrow> amount_of str_float product_obj ''target_app_sale_price'';
                   list_price \<leftarrow> amount_of str_float product_obj ''target_original_price'';
                   product_title \<leftarrow> py_get product_obj ''title'' (JStr ''Unknown Product'');
                   has_rate \<leftarrow> py_contains ''evaluation_rate'' product_obj;
                   rate \<leftarrow> (if has_rate
                            then do {
                              r \<leftarrow> py_getitem product_obj ''evaluation_rate'';
                              x \<leftarrow> py_float str_float r;
                              Some (Some x)
                            }
                            else Some None);
                   has_cost \<leftarrow> py_contains ''logistics_cost'' product_obj;
                   cost \<leftarrow> (if has_cost
                            then do {
                              x \<leftarrow> amount_of str_float product_obj ''logistics_cost'';
                              Some (Some x)
                            }
                            else Some None);
                   Some \<lparr>title = product_title, price = sale_price, product_id = pid,
                         original_price =
                           (if 0 < list_price \<and> sale_price < list_price then Some list_price
                            else None),
                         rating = rate, shipping_cost = cost\<rparr>
                 }
               }
             }
           }
         }
       }
     }"

section \<open>Reply composer (bot/handlers.py)\<close>

text \<open>\<open>sanitize_product_title(title)\<close> of bot/utils.py, on a string.\<close>

definition sanitize_product_title :: "string \<Rightarrow> string" where
  "sanitize_product_title t =
     (if t = [] then ''Unknown Product''
      else if 100 < length t then take 97 t @ ''...''
      else t)"

text \<open>
  The reply is built from f-strings. An f-string is modelled by the list of its pieces:
  literal text, a character beyond code point 255 (the emoji) by its code point, and the
  interpolated values, whose conversion to text is Python's: a value read from JSON, a
  float, an int.
\<close>

datatype piece = Text string | Glyph nat | Json_value json | Float_value rat | Int_value int

definition rating_line :: "rat \<Rightarrow> piece list" where
  "rating_line r = [Glyph 0x2B50, Text '' <b>Rating:</b> '', Float_value r, Text ''/5\<newline>'']"

definition discount_line :: "rat \<Rightarrow> int \<Rightarrow> piece list" where
  "discount_line original discount =
     [Glyph 0x1F3F7, Glyph 0xFE0F, Text '' <b>Original Price:</b> $'', Float_value original,
      Text '' (Save '', Int_value discount, Text ''%)\<newline>'']"

text \<open>
  \<open>round(((original_price - price) / original_price) * 100)\<close>, in floats; \<open>None\<close> is
  the \<open>ZeroDivisionError\<close>.
\<close>

definition discount_percent :: "rat \<Rightarrow> rat \<Rightarrow> int option" where
  "discount_percent original current =
     map_option (\<lambda>ratio. py_round (fmul ratio 100)) (fdiv (fsub original current) original)"

text \<open>
  The text \<open>process_aliexpress_link\<close> builds from the product details and the affiliate
  link; \<open>None\<close> when an exception is raised on the way.
\<close>

definition compose_reply :: "product_details \<Rightarrow> json \<Rightarrow> piece list option" where
  "compose_reply product affiliate_link =
     do {
       let response =
         [Glyph 0x1F6CD, Glyph 0xFE0F, Text '' <b>'', Json_value (title product),
          Text ''</b>\<newline>\<newline>'',
          Glyph 0x1F4B0, Text '' <b>Current Price:</b> $'', Float_value (price product),
          Text ''\<newline>''];
       response \<leftarrow>
         (case original_price product of
            Some original \<Rightarrow>
              if original \<noteq> 0 \<and> price product < original
              then do {
                discount \<leftarrow> discount_percent original (price product);
                Some (response @ discount_line original discount)
              }
              else Some response
          | None \<Rightarrow> Some response);
       let response =
         (case shipping_cost product of
            Some cost \<Rightarrow>
              if 0 < cost
              then response @ [Glyph 0x1F69A, Text '' <b>Shipping:</b> $'', Float_value cost,
                               Text ''\<newline>'']
              else response @ [Glyph 0x1F69A, Text '' <b>Shipping:</b> Free\<newline>'']
          | None \<Rightarrow> response);
       let response =
         (case rating product of
            Some r \<Rightarrow> if r \<noteq> 0 then response @ rating_line r else response
          | None \<Rightarrow> response);
       Some (response @
             [Text ''\<newline>'', Glyph 0x1F517, Text '' <b>Affiliate Link:</b>\<newline>'',
              Json_value affiliate_link])
     }"

text \<open>
  The parts the reply is put together from, one per step of the code, and the test
  under which the discount line is added.
\<close>

definition reply_head :: "product_details \<Rightarrow> piece list" where
  "reply_head product =
     [Glyph 0x1F6CD, Glyph 0xFE0F, Text '' <b>'', Json_value (title product),
      Text ''</b>\<newline>\<newline>'',
      Glyph 0x1F4B0, Text '' <b>Current Price:</b> $'', Float_value (price product),
      Text ''\<newline>'']"

definition reply_shipping :: "product_details \<Rightarrow> piece list" where
  "reply_shipping product =
     (case shipping_cost product of
        Some cost \<Rightarrow>
          if 0 < cost
          then [Glyph 0x1F69A, Text '' <b>Shipping:</b> $'', Float_value cost, Text ''\<newline>'']
          else [Glyph 0x1F69A, Text '' <b>Shipping:</b> Free\<newline>'']
      | None \<Rightarrow> [])"

definition reply_rating :: "product_details \<Rightarrow> piece list" where
  "reply_rating product =
     (case rating product of Some r \<Rightarrow> if r \<noteq> 0 then rating_line r else [] | None \<Rightarrow> [])"

definition reply_tail :: "json \<Rightarrow> piece list" where
  "reply_tail affiliate_link =
     [Text ''\<newline>'', Glyph 0x1F517, Text '' <b>Affiliate Link:</b>\<newline>'',
      Json_value affiliate_link]"

definition shows_discount :: "product_details \<Rightarrow> bool" where
  "shows_discount product \<longleftrightarrow>
     (case original_price product of
        Some original \<Rightarrow> original \<noteq> 0 \<and> price product < original
      | None \<Rightarrow> False)"

section \<open>Usage telemetry (bot/analytics.py)\<close>

text \<open>
  The module keeps three module-level tables: the list \<open>user_actions\<close>, the
  \<open>defaultdict(int)\<close> \<open>action_counts\<close> and the dict \<open>user_last_active\<close>. They are the
  fields of the state record below. The fourth field is the snapshot last handed to
  \<open>save_analytics_to_file\<close>: that function swallows every I/O error and never touches the
  tables in memory, so the snapshot is all the model keeps of the disk.
\<close>

record usage_event =
  user_id :: int
  action_type :: string
  timestamp :: int

record telemetry =
  user_actions :: "usage_event list"
  action_counts :: "string \<rightharpoonup> int"
  user_last_active :: "int \<rightharpoonup> int"
  saved :: "(usage_event list \<times> (string \<rightharpoonup> int) \<times> (int \<rightharpoonup> int)) option"

definition empty_telemetry :: telemetry where
  "empty_telemetry =
     \<lparr>user_actions = [], action_counts = Map.empty, user_last_active = Map.empty,
      saved = None\<rparr>"

text \<open>Reading a \<open>defaultdict(int)\<close>: a missing key reads as 0.\<close>

definition count_of :: "(string \<rightharpoonup> int) \<Rightarrow> string \<Rightarrow> int" where
  "count_of m a = (case m a of None \<Rightarrow> 0 | Some c \<Rightarrow> c)"

definition save_analytics_to_file :: "telemetry \<Rightarrow> telemetry" where
  "save_analytics_to_file s =
     s\<lparr>saved := Some (user_actions s, action_counts s, user_last_active s)\<rparr>"

text \<open>
  \<open>log_user_action(user_id, action_type)\<close>; the first argument is the value of
  \<open>int(time.time())\<close> read at the call.
\<close>

definition log_user_action :: "int \<Rightarrow> int \<Rightarrow> string \<Rightarrow> telemetry \<Rightarrow> telemetry" where
  "log_user_action now uid act s =
     (let s1 = s\<lparr>user_actions :=
                  user_actions s @ [\<lparr>user_id = uid, action_type = act, timestamp = now\<rparr>]\<rparr>;
          s2 = s1\<lparr>action_counts := (action_counts s1)(act \<mapsto> count_of (action_counts s1) act + 1)\<rparr>;
          s3 = s2\<lparr>user_last_active := (user_last_active s2)(uid \<mapsto> now)\<rparr>
      in if length (user_actions s3) mod 100 = 0 then save_analytics_to_file s3 else s3)"

text \<open>A sequence of calls, each given as (clock reading, user id, action type).\<close>

fun log_user_actions :: "(int \<times> int \<times> string) list \<Rightarrow> telemetry \<Rightarrow> telemetry" where
  "log_user_actions [] s = s"
| "log_user_actions ((now, uid, act) # cs) s = log_user_actions cs (log_user_action now uid act s)"

text \<open>What the event log says: how often an action occurs, and a user's latest event.\<close>

definition events_of_type :: "string \<Rightarrow> usage_event list \<Rightarrow> nat" where
  "events_of_type a evs = length (filter (\<lambda>e. action_type e = a) evs)"

definition latest_of_user :: "int \<Rightarrow> usage_event list \<Rightarrow> int option" where
  "latest_of_user u evs =
     (case filter (\<lambda>e. user_id e = u) (rev evs) of [] \<Rightarrow> None | e # _ \<Rightarrow> Some (timestamp e))"

definition consistent :: "telemetry \<Rightarrow> bool" where
  "consistent s \<longleftrightarrow>
     (\<forall>a. count_of (action_counts s) a = int (events_of_type a (user_actions s))) \<and>
     (\<forall>u. user_last_active s u = latest_of_user u (user_actions s))"

section \<open>Floats: the error of one rounding\<close>

lemma py_round_close: "\<bar>of_int (py_round x) - x\<bar> \<le> 1 / 2"
proof -
  have "of_int \<lfloor>x\<rfloor> \<le> x" "x < of_int \<lfloor>x\<rfloor> + 1" by linarith+
  then show ?thesis
    by (auto simp: py_round_def Let_def abs_le_iff)
qed

lemma bit_length_bounds:
  "0 < n \<Longrightarrow> 2 ^ (bit_length n - 1) \<le> n \<and> n < 2 ^ bit_length n"
proof (induction n rule: bit_length.induct)
  case (1 n)
  from "1.prems" have bl: "bit_length n = Suc (bit_length (n div 2))"
    by (simp add: bit_length.simps [of n])
  show ?case
  proof (cases "n div 2 \<le> 0")
    case True
    with "1.prems" have "n = 1" by linarith
    then have "bit_length n = Suc 0"
      by (simp add: bit_length.simps [of 1] bit_length.simps [of 0])
    with \<open>n = 1\<close> show ?thesis by simp
  next
    case False
    then have m: "0 < n div 2" by simp
    from "1.prems" have "\<not> n \<le> 0" by simp
    from "1.IH" [OF this m]
    have ih: "2 ^ (bit_length (n div 2) - 1) \<le> n div 2" "n div 2 < 2 ^ bit_length (n div 2)"
      by simp_all
    have pos: "0 < bit_length (n div 2)"
      using m by (simp add: bit_length.simps [of "n div 2"])
    have "(2::int) ^ bit_length (n div 2) = 2 * 2 ^ (bit_length (n div 2) - 1)"
      using pos by (cases "bit_length (n div 2)") simp_all
    also have "\<dots> \<le> 2 * (n div 2)" using ih(1) by simp
    also have "\<dots> \<le> n" by linarith
    finally have lo: "2 ^ (bit_length n - 1) \<le> n" by (simp add: bl)
    have "n < 2 * (n div 2) + 2" by linarith
    also have "\<dots> \<le> 2 * 2 ^ bit_length (n div 2)" using ih(2) by simp
    finally have "n < 2 ^ bit_length n" by (simp add: bl)
    with lo show ?thesis ..
  qed
qed

lemma binade_le:
  assumes "0 < x"
  shows "2 powi binade x \<le> x"
proof -
  obtain n d where q: "quotient_of x = (n, d)" by (cases "quotient_of x")
  then have d: "0 < d" and x: "x = of_int n / of_int d"
    by (auto dest: quotient_of_denom_pos quotient_of_div)
  with assms have n: "0 < n" by (simp add: zero_less_divide_iff)
  define e where "e = int (bit_length n) - int (bit_length d)"
  show ?thesis
  proof (cases "2 powi e \<le> x")
    case True
    then show ?thesis by (simp add: binade_def q e_def)
  next
    case False
    then have b: "binade x = e - 1" by (simp add: binade_def q e_def)
    from bit_length_bounds [OF n] have lo: "2 ^ (bit_length n - 1) \<le> n" by simp
    from bit_length_bounds [OF d] have hi: "d < 2 ^ bit_length d" by simp
    have pos: "0 < bit_length n" using n by (simp add: bit_length.simps [of n])
    have lo': "(2::rat) ^ (bit_length n - 1) \<le> of_int n"
    proof -
      have "(2::rat) ^ (bit_length n - 1) = of_int (2 ^ (bit_length n - 1))" by simp
      also have "\<dots> \<le> of_int n" using lo by (simp only: of_int_le_iff)
      finally show ?thesis .
    qed
    have hi': "of_int d \<le> (2::rat) ^ bit_length d"
    proof -
      have "(of_int d :: rat) \<le> of_int (2 ^ bit_length d)" using hi by (simp only: of_int_le_iff)
      also have "\<dots> = 2 ^ bit_length d" by simp
      finally show ?thesis .
    qed
    have "2 powi (e - 1) = (2::rat) ^ (bit_length n - 1) / 2 ^ bit_length d"
    proof -
      have "e - 1 = int (bit_length n - 1) - int (bit_length d)"
        using pos by (simp add: e_def)
      then have "(2::rat) powi (e - 1) =
          2 powi int (bit_length n - 1) / 2 powi int (bit_length d)"
        by (simp add: power_int_diff)
      then show ?thesis by simp
    qed
    also have "\<dots> \<le> of_int n / of_int d"
      using lo' hi' d n by (intro frac_le) auto
    finally show ?thesis using b x by simp
  qed
qed

lemma binade_gt:
  assumes "0 < x"
  shows "x < 2 powi (binade x + 1)"
proof -
  obtain n d where q: "quotient_of x = (n, d)" by (cases "quotient_of x")
  then have d: "0 < d" and x: "x = of_int n / of_int d"
    by (auto dest: quotient_of_denom_pos quotient_of_div)
  with assms have n: "0 < n" by (simp add: zero_less_divide_iff)
  define e where "e = int (bit_length n) - int (bit_length d)"
  show ?thesis
  proof (cases "2 powi e \<le> x")
    case False
    then have "binade x = e - 1" by (simp add: binade_def q e_def)
    with False show ?thesis by simp
  next
    case True
    then have b: "binade x = e" by (simp add: binade_def q e_def)
    from bit_length_bounds [OF n] have hi: "n < 2 ^ bit_length n" by simp
    from bit_length_bounds [OF d] have lo: "2 ^ (bit_length d - 1) \<le> d" by simp
    have pos: "0 < bit_length d" using d by (simp add: bit_length.simps [of d])
    have hi': "of_int n < (2::rat) ^ bit_length n"
    proof -
      have "(of_int n :: rat) < of_int (2 ^ bit_length n)" using hi by (simp only: of_int_less_iff)
      also have "\<dots> = 2 ^ bit_length n" by simp
      finally show ?thesis .
    qed
    have lo': "(2::rat) ^ (bit_length d - 1) \<le> of_int d"
    proof -
      have "(2::rat) ^ (bit_length d - 1) = of_int (2 ^ (bit_length d - 1))" by simp
      also have "\<dots> \<le> of_int d" using lo by (simp only: of_int_le_iff)
      finally show ?thesis .
    qed
    have "x < (2::rat) ^ bit_length n / 2 ^ (bit_length d - 1)"
      unfolding x using hi' lo' d n by (intro frac_less) auto
    also have "\<dots> = 2 powi (e + 1)"
    proof -
      have "e + 1 = int (bit_length n) - int (bit_length d - 1)"
        using pos by (simp add: e_def)
      then have "(2::rat) powi (e + 1) =
          2 powi int (bit_length n) / 2 powi int (bit_length d - 1)"
        by (simp add: power_int_diff)
      then show ?thesis by simp
    qed
    finally show ?thesis using b by simp
  qed
qed

lemma fl_close: "\<bar>fl x - x\<bar> \<le> \<bar>x\<bar> / 2 ^ 53"
proof (cases "x = 0")
  case True
  then show ?thesis by (simp add: fl_def)
next
  case False
  define ulp :: rat where "ulp = 2 powi (binade \<bar>x\<bar> - 52)"
  have ulp: "0 < ulp" by (simp add: ulp_def)
  have fl: "fl x = of_int (py_round (x / ulp)) * ulp"
    using False by (simp add: fl_def ulp_def Let_def)
  have "\<bar>fl x - x\<bar> = \<bar>of_int (py_round (x / ulp)) - x / ulp\<bar> * ulp"
  proof -
    have "fl x - x = (of_int (py_round (x / ulp)) - x / ulp) * ulp"
      using ulp by (simp add: fl field_simps)
    then show ?thesis using ulp by (simp add: abs_mult)
  qed
  also have "\<dots> \<le> 1 / 2 * ulp"
    using py_round_close [of "x / ulp"] ulp by (intro mult_right_mono) auto
  also have "\<dots> = 2 powi binade \<bar>x\<bar> / 2 ^ 53"
  proof -
    have "ulp = 2 powi binade \<bar>x\<bar> / 2 powi 52"
      unfolding ulp_def by (simp add: power_int_diff)
    then show ?thesis by simp
  qed
  also have "\<dots> \<le> \<bar>x\<bar> / 2 ^ 53"
    using binade_le [of "\<bar>x\<bar>"] False by (intro divide_right_mono) auto
  finally show ?thesis .
qed

section \<open>Link extractor: every extracted link is valid\<close>

lemma take_takeWhile:
  assumes "k \<le> length (takeWhile P s)"
  shows "take k s = take k (takeWhile P s)"
proof -
  have "take k s = take k (takeWhile P s @ dropWhile P s)" by simp
  also have "\<dots> = take k (takeWhile P s)" using assms by (simp del: takeWhile_dropWhile_id)
  finally show ?thesis .
qed

lemma rmatch_Plus_iff:
  "rest \<in> set (rmatch (Plus c) s) \<longleftrightarrow>
     (\<exists>k. 1 \<le> k \<and> k \<le> length (takeWhile (in_cls c) s) \<and> rest = drop k s)"
  by (auto simp: image_iff)

lemma rmatch_context:
  "rest \<in> set (rmatch r s) \<Longrightarrow> \<exists>m. s = m @ rest \<and> (\<forall>t. t \<in> set (rmatch r (m @ t)))"
proof (induction r arbitrary: s rest)
  case (Lit l)
  then have "prefix l s" and rest: "rest = drop (length l) s"
    by (auto split: if_splits)
  then have "s = l @ rest" by (auto simp: prefix_def)
  then show ?case by auto
next
  case (Cls c)
  then obtain x where "s = x # rest" "in_cls c x"
    by (auto split: list.splits if_splits)
  then have "s = [x] @ rest \<and> (\<forall>t. t \<in> set (rmatch (Cls c) ([x] @ t)))" by simp
  then show ?case by blast
next
  case (Plus c)
  then obtain k where k: "1 \<le> k" "k \<le> length (takeWhile (in_cls c) s)" "rest = drop k s"
    unfolding rmatch_Plus_iff by blast
  let ?m = "take k s"
  have len: "length ?m = k"
    using k(2) length_takeWhile_le [of "in_cls c" s] by simp
  have "?m = take k (takeWhile (in_cls c) s)" by (rule take_takeWhile [OF k(2)])
  then have "set ?m \<subseteq> set (takeWhile (in_cls c) s)" by (metis set_take_subset)
  then have all: "\<forall>x \<in> set ?m. in_cls c x" by (auto dest: set_takeWhileD)
  have "t \<in> set (rmatch (Plus c) (?m @ t))" for t
  proof -
    have "takeWhile (in_cls c) (?m @ t) = ?m @ takeWhile (in_cls c) t"
      using all by (simp add: takeWhile_append2)
    then have "k \<le> length (takeWhile (in_cls c) (?m @ t))" using len by simp
    moreover have "t = drop k (?m @ t)" using len by simp
    ultimately show ?thesis unfolding rmatch_Plus_iff using k(1) by blast
  qed
  moreover have "s = ?m @ rest" using k(3) by simp
  ultimately show ?case by blast
next
  case (Seq a b)
  then obtain mid where mid: "mid \<in> set (rmatch a s)" "rest \<in> set (rmatch b mid)"
    by auto
  from Seq.IH(1) [OF mid(1)] obtain m1 where
    m1: "s = m1 @ mid" "\<And>t. t \<in> set (rmatch a (m1 @ t))" by blast
  from Seq.IH(2) [OF mid(2)] obtain m2 where
    m2: "mid = m2 @ rest" "\<And>t. t \<in> set (rmatch b (m2 @ t))" by blast
  have "t \<in> set (rmatch (Seq a b) ((m1 @ m2) @ t))" for t
    using m1(2) [of "m2 @ t"] m2(2) [of t] by auto
  moreover have "s = (m1 @ m2) @ rest" using m1(1) m2(1) by simp
  ultimately show ?case by blast
next
  case (Alt a b)
  then consider "rest \<in> set (rmatch a s)" | "rest \<in> set (rmatch b s)" by auto
  then show ?case
  proof cases
    case 1
    from Alt.IH(1) [OF 1] show ?thesis by auto
  next
    case 2
    from Alt.IH(2) [OF 2] show ?thesis by auto
  qed
next
  case (Opt a)
  then consider "rest \<in> set (rmatch a s)" | "rest = s" by auto
  then show ?case
  proof cases
    case 1
    from Opt.IH [OF 1] show ?thesis by auto
  next
    case 2
    then have "s = [] @ rest \<and> (\<forall>t. t \<in> set (rmatch (Opt a) ([] @ t)))" by simp
    then show ?thesis by blast
  qed
qed

text \<open>Full match: the pattern can consume the whole string.\<close>

lemma rmatch_consumed_full:
  assumes "rest \<in> set (rmatch r s)"
  shows "[] \<in> set (rmatch r (take (length s - length rest) s))"
proof -
  from rmatch_context [OF assms] obtain m where
    m: "s = m @ rest" "\<And>t. t \<in> set (rmatch r (m @ t))" by blast
  have "take (length s - length rest) s = m" using m(1) by simp
  with m(2) [of "[]"] show ?thesis by simp
qed

lemma re_findall_from_full:
  "m \<in> set (re_findall_from r b s) \<Longrightarrow> [] \<in> set (rmatch r m)"
proof (induction r b s rule: re_findall_from.induct)
  case (1 r must_advance s)
  show ?case
  proof (cases "find (\<lambda>rest. \<not> must_advance \<or> length rest < length s) (rmatch r s)")
    case None
    show ?thesis
    proof (cases s)
      case Nil
      with None "1.prems" show ?thesis
        by (simp add: re_findall_from.simps [of r must_advance])
    next
      case (Cons x t)
      with None "1.prems" have "m \<in> set (re_findall_from r False t)"
        by (simp add: re_findall_from.simps [of r must_advance])
      with "1.IH" None Cons show ?thesis by blast
    qed
  next
    case (Some rest)
    then have mem: "rest \<in> set (rmatch r s)"
      by (auto simp: find_Some_iff)
    from "1.prems" Some consider
        "m = take (length s - length rest) s"
      | "length rest < length s" "m \<in> set (re_findall_from r False rest)"
      | "\<not> length rest < length s" "m \<in> set (re_findall_from r True s)"
      by (auto simp: re_findall_from.simps [of r must_advance s] split: if_splits)
    then show ?thesis
    proof cases
      case 1
      then show ?thesis using rmatch_consumed_full [OF mem] by simp
    next
      case 2
      with "1.IH" Some show ?thesis by blast
    next
      case 3
      with "1.IH" Some show ?thesis by blast
    qed
  qed
qed

lemma extracted_is_full_match:
  assumes "link \<in> set (extract_aliexpress_links text)"
  shows "\<exists>pattern \<in> set ALIEXPRESS_LINK_PATTERNS. [] \<in> set (rmatch pattern link)"
proof -
  from assms obtain pattern where
    "pattern \<in> set ALIEXPRESS_LINK_PATTERNS" "link \<in> set (re_findall pattern text)"
    by (auto simp: extract_aliexpress_links_def split: if_splits)
  then show ?thesis
    using re_findall_from_full [of link pattern False "text"] by (auto simp: re_findall_def)
qed

lemma extracted_is_valid:
  "link \<in> set (extract_aliexpress_links text) \<Longrightarrow> is_valid_aliexpress_link link"
proof -
  assume "link \<in> set (extract_aliexpress_links text)"
  from extracted_is_full_match [OF this] obtain pattern where
    "pattern \<in> set ALIEXPRESS_LINK_PATTERNS" "[] \<in> set (rmatch pattern link)" by blast
  then have "pattern \<in> set ALIEXPRESS_LINK_PATTERNS \<and> re_match pattern link"
    by (auto simp: re_match_def)
  then show ?thesis
    unfolding is_valid_aliexpress_link_def list_ex_iff by blast
qed

text \<open>
  Claim C10. For every input text, every string returned by \<open>extract_aliexpress_links\<close>
  is a full match of one of the four patterns and passes \<open>is_valid_aliexpress_link\<close>;
  so \<open>process_message\<close> never reaches its no-valid-link branch.
\<close>

theorem extracted_links_are_valid:
  "(\<forall>link \<in> set (extract_aliexpress_links text).
      (\<exists>pattern \<in> set ALIEXPRESS_LINK_PATTERNS. [] \<in> set (rmatch pattern link)) \<and>
      is_valid_aliexpress_link link)
   \<and> select_link text \<noteq> No_Valid_Link"
proof -
  have valid: "\<forall>link \<in> set (extract_aliexpress_links text). is_valid_aliexpress_link link"
    by (simp add: extracted_is_valid)
  have "find is_valid_aliexpress_link (extract_aliexpress_links text) \<noteq> None"
    if "extract_aliexpress_links text \<noteq> []"
  proof -
    from that obtain l ls where "extract_aliexpress_links text = l # ls"
      by (cases "extract_aliexpress_links text") auto
    with valid show ?thesis by simp
  qed
  then have "select_link text \<noteq> No_Valid_Link"
    by (cases "extract_aliexpress_links text = []")
       (auto simp: select_link_def Let_def split: option.splits)
  with valid show ?thesis
    by (simp add: extracted_is_full_match)
qed

theorem extracted_links_are_valid_witness:
  "extract_aliexpress_links
      ''see https://www.aliexpress.com/item/1234567890.html and http://s.click.aliexpress.com/e/_abc x''
     = [''https://www.aliexpress.com/item/1234567890.html'', ''http://s.click.aliexpress.com/e/_abc'']
   \<and> is_valid_aliexpress_link ''https://www.aliexpress.com/item/1234567890.html''
   \<and> is_valid_aliexpress_link ''http://s.click.aliexpress.com/e/_abc''"
proof -
  have e: "extract_aliexpress_links
      ''see https://www.aliexpress.com/item/1234567890.html and http://s.click.aliexpress.com/e/_abc x''
     = [''https://www.aliexpress.com/item/1234567890.html'', ''http://s.click.aliexpress.com/e/_abc'']"
    by code_simp
  from extracted_links_are_valid [of
      "''see https://www.aliexpress.com/item/1234567890.html and http://s.click.aliexpress.com/e/_abc x''"]
  show ?thesis
    unfolding e by simp
qed

section \<open>Product id: redirect links and the depth of the recursion\<close>

text \<open>
  Percent escapes are decoded as UTF-8: the three bytes of the euro sign give one
  character, a byte that is no UTF-8 gives the replacement character. So the id of a
  target URL can hold characters that the link does not.
\<close>

lemma unquote_decodes_utf8:
  "unquote (str ''%E2%82%AC%41%FF%C3'') = [0x20AC, 0x41, 0xFFFD, 0xFFFD]
   \<and> extract_product_id 1000 (\<lambda>_. True)
        (str ''https://s.click.aliexpress.com/e?dl_target_url=%2Fitem%2F%E2%82%AC.html'')
     = Inr (Some [0x20AC])"
  by code_simp

lemma nesting_Return:
  "extract_pass host_checks link = Return r \<Longrightarrow> nesting host_checks link = 0"
  by (simp add: nesting.simps [of host_checks link])

lemma nesting_Recurse:
  "extract_pass host_checks link = Recurse target_url \<Longrightarrow>
   nesting host_checks link = Suc (nesting host_checks target_url)"
  by (simp add: nesting.simps [of host_checks link])

lemma extract_product_id_Return:
  "extract_pass host_checks link = Return r \<Longrightarrow>
   extract_product_id (Suc frames) host_checks link = Inr r"
  by (simp add: extract_product_id.simps)

lemma extract_product_id_Recurse:
  "extract_pass host_checks link = Recurse target_url \<Longrightarrow>
   extract_product_id (Suc frames) host_checks link =
     Inr (case extract_product_id frames host_checks target_url of
            Inl e \<Rightarrow> None
          | Inr pid \<Rightarrow> pid)"
  by (simp add: extract_product_id.simps)

text \<open>
  The calls a link needs are one more than its nesting. With room for them the result
  does not depend on how much room there is; without, the result is \<open>None\<close>.
\<close>

lemma extract_product_id_room:
  "nesting host_checks link \<le> frames \<Longrightarrow>
   extract_product_id (Suc frames) host_checks link =
     extract_product_id (Suc (nesting host_checks link)) host_checks link"
proof (induction frames arbitrary: link)
  case 0
  then show ?case by simp
next
  case (Suc frames)
  show ?case
  proof (cases "extract_pass host_checks link")
    case (Return r)
    then show ?thesis
      by (simp only: extract_product_id_Return)
  next
    case (Recurse target_url)
    then have n: "nesting host_checks link = Suc (nesting host_checks target_url)"
      by (rule nesting_Recurse)
    with Suc.prems have "nesting host_checks target_url \<le> frames" by simp
    then have "extract_product_id (Suc frames) host_checks target_url =
        extract_product_id (Suc (nesting host_checks target_url)) host_checks target_url"
      by (rule Suc.IH)
    then show ?thesis
      unfolding n by (simp only: extract_product_id_Recurse [OF Recurse])
  qed
qed

lemma extract_product_id_no_room:
  "frames < nesting host_checks link \<Longrightarrow>
   extract_product_id (Suc frames) host_checks link = Inr None"
proof (induction frames arbitrary: link)
  case 0
  then obtain target_url where r: "extract_pass host_checks link = Recurse target_url"
    by (cases "extract_pass host_checks link") (auto simp: nesting_Return)
  then show ?case by (simp add: extract_product_id.simps)
next
  case (Suc frames)
  then obtain target_url where r: "extract_pass host_checks link = Recurse target_url"
    by (cases "extract_pass host_checks link") (auto simp: nesting_Return)
  with Suc.prems have "frames < nesting host_checks target_url"
    by (simp add: nesting_Recurse)
  then have "extract_product_id (Suc frames) host_checks target_url = Inr None"
    by (rule Suc.IH)
  then show ?case
    by (simp only: extract_product_id_Recurse [OF r] sum.case)
qed

lemma nesting_le_length: "nesting host_checks link \<le> length link"
proof (induction link rule: length_induct)
  case (1 link)
  show ?case
  proof (cases "extract_pass host_checks link")
    case (Return r)
    then show ?thesis by (simp add: nesting_Return)
  next
    case (Recurse target_url)
    then have shorter: "length target_url < length link" by (rule extract_pass_shorter)
    with 1 have "nesting host_checks target_url \<le> length target_url" by simp
    with shorter Recurse show ?thesis by (simp add: nesting_Recurse)
  qed
qed






text \<open>
  Claim C2, as the code has it. A call of \<open>extract_product_id\<close> returns on every link.
  Each recursive call is made on a target URL strictly shorter than the link it was
  read from, so the calls nested in each other are at most as many as the link has
  characters, plus one. The source sets no bound of its own on their number: with room
  for them under the interpreter's recursion limit the result does not depend on the
  limit, and without it the function returns \<open>None\<close>.
\<close>

theorem extract_product_id_returns:
  "(\<exists>pid. extract_product_id (Suc frames) host_checks link = Inr pid)
   \<and> (\<forall>target_url. extract_pass host_checks link = Recurse target_url \<longrightarrow>
         length target_url < length link)
   \<and> nesting host_checks link \<le> length link
   \<and> (nesting host_checks link \<le> frames \<longrightarrow>
         extract_product_id (Suc frames) host_checks link =
           extract_product_id (Suc (nesting host_checks link)) host_checks link)
   \<and> (frames < nesting host_checks link \<longrightarrow>
         extract_product_id (Suc frames) host_checks link = Inr None)"
proof -
  have "\<exists>pid. extract_product_id (Suc frames) host_checks link = Inr pid"
    by (simp add: extract_product_id.simps)
  moreover have "\<forall>target_url. extract_pass host_checks link = Recurse target_url \<longrightarrow>
      length target_url < length link"
    by (simp add: extract_pass_shorter)
  moreover have "nesting host_checks link \<le> length link"
    by (rule nesting_le_length)
  moreover have "nesting host_checks link \<le> frames \<longrightarrow>
      extract_product_id (Suc frames) host_checks link =
        extract_product_id (Suc (nesting host_checks link)) host_checks link"
    using extract_product_id_room by blast
  moreover have "frames < nesting host_checks link \<longrightarrow>
      extract_product_id (Suc frames) host_checks link = Inr None"
    using extract_product_id_no_room by blast
  ultimately show ?thesis by blast
qed

theorem extract_product_id_returns_witness:
  "extract_pass (\<lambda>_. True)
      (str ''https://s.click.aliexpress.com/e/1?dl_target_url=https://s.click.aliexpress.com/e/2?dl_target_url=/x/42.html'')
     = Recurse (str ''https://s.click.aliexpress.com/e/2?dl_target_url=/x/42.html'')
   \<and> length (str ''https://s.click.aliexpress.com/e/2?dl_target_url=/x/42.html'')
     < length (str ''https://s.click.aliexpress.com/e/1?dl_target_url=https://s.click.aliexpress.com/e/2?dl_target_url=/x/42.html'')
   \<and> nesting (\<lambda>_. True)
      (str ''https://s.click.aliexpress.com/e/1?dl_target_url=https://s.click.aliexpress.com/e/2?dl_target_url=/x/42.html'')
     = 2
   \<and> extract_product_id 1000 (\<lambda>_. True)
      (str ''https://s.click.aliexpress.com/e/1?dl_target_url=https://s.click.aliexpress.com/e/2?dl_target_url=/x/42.html'')
     = Inr (Some (str ''42''))
   \<and> extract_product_id 2 (\<lambda>_. True)
      (str ''https://s.click.aliexpress.com/e/1?dl_target_url=https://s.click.aliexpress.com/e/2?dl_target_url=/x/42.html'')
     = Inr None"
proof -
  let ?link = "str ''https://s.click.aliexpress.com/e/1?dl_target_url=https://s.click.aliexpress.com/e/2?dl_target_url=/x/42.html''"
  let ?target = "str ''https://s.click.aliexpress.com/e/2?dl_target_url=/x/42.html''"
  have p: "extract_pass (\<lambda>_. True) ?link = Recurse ?target"
    by code_simp
  have n: "nesting (\<lambda>_. True) ?link = 2"
    by code_simp
  have r: "extract_product_id 3 (\<lambda>_. True) ?link = Inr (Some (str ''42''))"
    by code_simp
  note room = extract_product_id_returns [of 999 "\<lambda>_. True" ?link]
  note no_room = extract_product_id_returns [of 1 "\<lambda>_. True" ?link]
  from room p have shorter: "length ?target < length ?link"
    by blast
  have "nesting (\<lambda>_. True) ?link \<le> 999" by (simp add: n)
  with room have "extract_product_id (Suc 999) (\<lambda>_. True) ?link =
      extract_product_id (Suc (nesting (\<lambda>_. True) ?link)) (\<lambda>_. True) ?link"
    by blast
  with n r have deep: "extract_product_id 1000 (\<lambda>_. True) ?link = Inr (Some (str ''42''))"
    by simp
  have "1 < nesting (\<lambda>_. True) ?link" by (simp add: n)
  with no_room have "extract_product_id (Suc 1) (\<lambda>_. True) ?link = Inr None"
    by blast
  then have "extract_product_id 2 (\<lambda>_. True) ?link = Inr None"
    by (simp add: numeral_2_eq_2)
  with p n shorter deep show ?thesis by simp
qed

text \<open>
  No cap at depth 5: on a redirect link that wraps a product link six levels deep the
  function makes seven calls nested in each other and returns the id of the innermost
  link. With room for six calls only, the seventh ends in a \<open>RecursionError\<close> and the
  result is \<open>None\<close>.
\<close>

theorem extract_product_id_depth_counterexample:
  "nesting (\<lambda>_. True)
      (str ''https://s.click.aliexpress.com/e/1?dl_target_url=https://s.click.aliexpress.com/e/2?dl_target_url=https://s.click.aliexpress.com/e/3?dl_target_url=https://s.click.aliexpress.com/e/4?dl_target_url=https://s.click.aliexpress.com/e/5?dl_target_url=https://s.click.aliexpress.com/e/6?dl_target_url=https://www.aliexpress.com/item/42.html'')
     = 6
   \<and> extract_product_id 1000 (\<lambda>_. True)
      (str ''https://s.click.aliexpress.com/e/1?dl_target_url=https://s.click.aliexpress.com/e/2?dl_target_url=https://s.click.aliexpress.com/e/3?dl_target_url=https://s.click.aliexpress.com/e/4?dl_target_url=https://s.click.aliexpress.com/e/5?dl_target_url=https://s.click.aliexpress.com/e/6?dl_target_url=https://www.aliexpress.com/item/42.html'')
     = Inr (Some (str ''42''))
   \<and> extract_product_id 7 (\<lambda>_. True)
      (str ''https://s.click.aliexpress.com/e/1?dl_target_url=https://s.click.aliexpress.com/e/2?dl_target_url=https://s.click.aliexpress.com/e/3?dl_target_url=https://s.click.aliexpress.com/e/4?dl_target_url=https://s.click.aliexpress.com/e/5?dl_target_url=https://s.click.aliexpress.com/e/6?dl_target_url=https://www.aliexpress.com/item/42.html'')
     = Inr (Some (str ''42''))
   \<and> extract_product_id 6 (\<lambda>_. True)
      (str ''https://s.click.aliexpress.com/e/1?dl_target_url=https://s.click.aliexpress.com/e/2?dl_target_url=https://s.click.aliexpress.com/e/3?dl_target_url=https://s.click.aliexpress.com/e/4?dl_target_url=https://s.click.aliexpress.com/e/5?dl_target_url=https://s.click.aliexpress.com/e/6?dl_target_url=https://www.aliexpress.com/item/42.html'')
     = Inr None"
  by code_simp

section \<open>Request signing: the signature is the one specified\<close>

lemma foldl_concat_pairs:
  "foldl (\<lambda>acc (key, val). acc @ (key @ f val)) acc ps =
     acc @ concat (map (\<lambda>(key, val). key @ f val) ps)"
  by (induction ps arbitrary: acc) (auto)

lemma listing_by_keys:
  "distinct (map fst ps) \<Longrightarrow> map (\<lambda>k. (k, the (map_of ps k))) (map fst ps) = ps"
proof (induction ps)
  case Nil
  then show ?case by simp
next
  case (Cons p ps)
  obtain k v where p: "p = (k, v)" by (cases p)
  from Cons.prems p have notin: "k \<notin> fst ` set ps" and d: "distinct (map fst ps)" by auto
  have "map (\<lambda>k'. (k', the (map_of (p # ps) k'))) (map fst ps) =
        map (\<lambda>k'. (k', the (map_of ps k'))) (map fst ps)"
    using notin p by (intro map_cong) auto
  with Cons.IH [OF d] p show ?case by simp
qed

lemma sorted_listing_unique:
  assumes "set ps = set qs"
    and "distinct (map fst ps)" "distinct (map fst qs)"
    and "sorted (map fst ps)" "sorted (map fst qs)"
  shows "ps = qs"
proof -
  have "set (map fst ps) = set (map fst qs)" using assms(1) by simp
  then have keys: "map fst ps = map fst qs"
    using assms(2-5) by (intro sorted_distinct_set_unique) auto
  have "map_of ps = map_of qs"
    using assms(1-3) by (simp add: map_of_inject_set)
  have "ps = map (\<lambda>k. (k, the (map_of ps k))) (map fst ps)"
    by (rule listing_by_keys [OF assms(2), symmetric])
  also have "\<dots> = map (\<lambda>k. (k, the (map_of qs k))) (map fst qs)"
    unfolding keys \<open>map_of ps = map_of qs\<close> ..
  also have "\<dots> = qs"
    by (rule listing_by_keys [OF assms(3)])
  finally show ?thesis .
qed

lemma distinct_keys_sort_key:
  "distinct (map fst (sort_key fst ps)) = distinct (map fst ps)"
proof -
  have "mset (map fst (sort_key fst ps)) = mset (map fst ps)" by simp
  then show ?thesis by (rule mset_eq_imp_distinct_iff)
qed

lemma dict_set_keys: "fst ` set (dict_set k v d) = insert k (fst ` set d)"
  by (induction k v d rule: dict_set.induct) (auto split: if_splits)

lemma dict_set_distinct: "distinct (map fst d) \<Longrightarrow> distinct (map fst (dict_set k v d))"
  by (induction k v d rule: dict_set.induct) (auto simp: dict_set_keys)

lemma dict_set_lookup: "map_of (dict_set k v d) = (map_of d)(k \<mapsto> v)"
  by (induction d) auto

lemma dict_merge_distinct: "distinct (map fst a) \<Longrightarrow> distinct (map fst (dict_merge a b))"
  unfolding dict_merge_def
  by (induction b arbitrary: a) (auto simp: dict_set_distinct)

lemma dict_merge_lookup: "map_of (dict_merge a b) = map_of a ++ map_of (rev b)"
  unfolding dict_merge_def
  by (induction b arbitrary: a) (auto simp: dict_set_lookup map_add_def fun_eq_iff split: option.splits)

lemma generate_signature_unfold:
  "generate_signature secret md5_hex py_str params =
     signature_by_spec secret md5_hex py_str (sort_key fst params)"
  by (simp add: generate_signature_def signature_by_spec_def foldl_concat_pairs Let_def)

lemma generate_signature_spec:
  assumes "distinct (map fst params)"
    and "set ps = set params" "distinct (map fst ps)" "sorted (map fst ps)"
  shows "generate_signature secret md5_hex py_str params = signature_by_spec secret md5_hex py_str ps"
proof -
  have "sort_key fst params = ps"
  proof (rule sorted_listing_unique)
    show "set (sort_key fst params) = set ps" using assms(2) by simp
    show "distinct (map fst (sort_key fst params))" using assms(1) by (simp add: distinct_keys_sort_key)
    show "sorted (map fst (sort_key fst params))" by (rule sorted_sort_key)
  qed (fact assms)+
  then show ?thesis by (simp add: generate_signature_unfold)
qed

text \<open>
  Claim C4. For every parameter dict (distinct keys) the signature the code generates is
  the one the specification describes: take the items in ascending order of their keys
  (\<open>ps\<close> is any such listing of the dict's items), write the secret, then every key directly
  followed by its value's text, then the secret again, and upper-case the MD5 hex digest
  of that string. In \<open>make_api_request\<close> the dict that is signed is the merge of the common
  and the method's parameters, and its signature is what is sent under \<open>sign\<close>.
\<close>

theorem generate_signature_follows_spec:
  fixes params ps :: "(string \<times> 'v) list" and mparams :: "(string \<times> string) list"
    and app_key api_method ts :: string
  defines "all_params \<equiv> dict_merge (common_params app_key api_method ts) mparams"
  assumes "distinct (map fst params)"
    and "mset ps = mset params"
    and "sorted (map fst ps)"
  shows "generate_signature secret md5_hex py_str params = signature_by_spec secret md5_hex py_str ps
       \<and> distinct (map fst all_params)
       \<and> map_of (signed_params secret md5_hex app_key ts api_method mparams) ''sign'' =
           Some (generate_signature secret md5_hex (\<lambda>s. s) all_params)"
proof -
  have "set ps = set params"
    using assms(3) by (rule mset_eq_setD)
  moreover have "mset (map fst ps) = mset (map fst params)"
    using assms(3) by simp
  then have "distinct (map fst ps)"
    using assms(2) mset_eq_imp_distinct_iff by blast
  ultimately have "generate_signature secret md5_hex py_str params =
      signature_by_spec secret md5_hex py_str ps"
    using assms(2,4) by (intro generate_signature_spec)
  moreover have "distinct (map fst all_params)"
    unfolding all_params_def by (rule dict_merge_distinct) (simp add: common_params_def)
  moreover have "map_of (signed_params secret md5_hex app_key ts api_method mparams) ''sign'' =
      Some (generate_signature secret md5_hex (\<lambda>s. s) all_params)"
    by (simp add: signed_params_def Let_def dict_set_lookup all_params_def)
  ultimately show ?thesis by simp
qed

theorem generate_signature_follows_spec_witness:
  "generate_signature ''k9'' (\<lambda>x. x) (\<lambda>s. s) [(''v'', ''2.0''), (''app_key'', ''512''), (''format'', ''json'')]
     = ''K9APP_KEY512FORMATJSONV2.0K9''"
proof -
  have d: "distinct (map fst [(''v'', ''2.0''), (''app_key'', ''512''), (''format'', ''json'')])"
    by simp
  have m: "mset [(''app_key'', ''512''), (''format'', ''json''), (''v'', ''2.0'')] =
           mset [(''v'', ''2.0''), (''app_key'', ''512''), (''format'', ''json'')]"
    by (simp add: add.commute)
  have s: "sorted (map fst [(''app_key'', ''512''), (''format'', ''json''), (''v'', ''2.0'')])"
    by code_simp
  have v: "signature_by_spec ''k9'' (\<lambda>x. x) (\<lambda>s. s)
             [(''app_key'', ''512''), (''format'', ''json''), (''v'', ''2.0'')]
           = ''K9APP_KEY512FORMATJSONV2.0K9''"
    by code_simp
  from generate_signature_follows_spec [OF d m s, where secret = "''k9''" and ?md5_hex = "\<lambda>x. x"
      and py_str = "\<lambda>s. s" and mparams = "[]" and app_key = "''512''" and api_method = "''m''"
      and ts = "''0''"] v
  show ?thesis by simp
qed

section \<open>Rate limiter: the request after a full window waits\<close>

lemma respect_rate_limit_Some:
  assumes "0 < cap"
  shows "\<exists>s'. respect_rate_limit cap lag s = Some s'"
proof (cases "filter (\<lambda>ts. clock s - ts < 60) (request_timestamps s)")
  case Nil
  with assms show ?thesis by (simp add: respect_rate_limit_def Let_def)
next
  case (Cons oldest rest)
  then show ?thesis by (simp add: respect_rate_limit_def Let_def)
qed

lemma respect_rate_limit_appends:
  assumes "respect_rate_limit cap lag s = Some s'"
  shows "request_timestamps s' =
           filter (\<lambda>ts. clock s - ts < 60) (request_timestamps s) @ [clock s']"
  using assms
  by (auto simp: respect_rate_limit_def Let_def split: if_splits list.splits)

lemma respect_rate_limit_clock:
  assumes "respect_rate_limit cap lag s = Some s'" and "0 \<le> lag"
  shows "clock s \<le> clock s'"
  using assms
  by (auto simp: respect_rate_limit_def Let_def split: if_splits list.splits)

lemma respect_rate_limit_waits:
  assumes "respect_rate_limit cap lag s = Some s'" and "0 \<le> lag"
    and "filter (\<lambda>ts. clock s - ts < 60) (request_timestamps s) = oldest # rest"
    and "cap \<le> Suc (length rest)"
  shows "oldest + 60 \<le> clock s'"
  using assms
  by (auto simp: respect_rate_limit_def Let_def split: if_splits)

lemma length_filter_mono:
  "(\<And>x. x \<in> set xs \<Longrightarrow> P x \<Longrightarrow> Q x) \<Longrightarrow> length (filter P xs) \<le> length (filter Q xs)"
  by (induction xs) (auto simp: le_SucI)

lemma window_ok_idle:
  assumes "window_ok cap s" and "0 \<le> gap"
  shows "window_ok cap (s\<lparr>clock := clock s + gap\<rparr>)"
proof -
  have "length (filter (\<lambda>ts. clock s + gap - ts < 60) (request_timestamps s))
      \<le> length (filter (\<lambda>ts. clock s - ts < 60) (request_timestamps s))"
    using assms(2) by (intro length_filter_mono) simp
  with assms show ?thesis by (fastforce simp: window_ok_def)
qed

lemma window_ok_call:
  assumes ok: "window_ok cap s" and lag: "0 \<le> lag"
    and call: "respect_rate_limit cap lag s = Some s'"
  shows "window_ok cap s'"
proof -
  let ?kept = "filter (\<lambda>ts. clock s - ts < 60) (request_timestamps s)"
  have app: "request_timestamps s' = ?kept @ [clock s']"
    by (rule respect_rate_limit_appends [OF call])
  have mono: "clock s \<le> clock s'"
    by (rule respect_rate_limit_clock [OF call lag])
  from ok have sorted: "sorted ?kept" and past: "\<forall>t \<in> set ?kept. t \<le> clock s"
    and len: "length ?kept \<le> cap"
    by (auto simp: window_ok_def intro: sorted_wrt_filter)
  have "sorted (request_timestamps s')"
    unfolding app using sorted past mono by (auto simp: sorted_append)
  moreover have "\<forall>t \<in> set (request_timestamps s'). t \<le> clock s'"
    unfolding app using past mono by auto
  moreover have "length (filter (\<lambda>ts. clock s' - ts < 60) (request_timestamps s')) \<le> cap"
  proof (cases "length ?kept < cap")
    case True
    have "length (filter (\<lambda>ts. clock s' - ts < 60) ?kept) \<le> length ?kept"
      by (rule length_filter_le)
    with True show ?thesis unfolding app by simp
  next
    case False
    with len have full: "length ?kept = cap" by simp
    show ?thesis
    proof (cases ?kept)
      case Nil
      with full call have False by (simp add: respect_rate_limit_def Let_def)
      then show ?thesis ..
    next
      case (Cons oldest rest)
      with full have "cap \<le> Suc (length rest)" by simp
      from respect_rate_limit_waits [OF call lag Cons this]
      have "\<not> clock s' - oldest < 60" by simp
      then have "filter (\<lambda>ts. clock s' - ts < 60) (request_timestamps s') =
          filter (\<lambda>ts. clock s' - ts < 60) rest @ [clock s']"
        unfolding app Cons by simp
      then have "length (filter (\<lambda>ts. clock s' - ts < 60) (request_timestamps s')) =
          Suc (length (filter (\<lambda>ts. clock s' - ts < 60) rest))"
        by simp
      also have "\<dots> \<le> Suc (length rest)"
        by (simp del: length_filter_le add: length_filter_le [of _ rest])
      also have "\<dots> = cap" using full Cons by simp
      finally show ?thesis .
    qed
  qed
  ultimately show ?thesis by (simp add: window_ok_def)
qed

lemma reachable_window_ok: "reachable cap s \<Longrightarrow> window_ok cap s"
proof (induction rule: reachable.induct)
  case (start t)
  show ?case by (simp add: window_ok_def)
next
  case (idle s gap)
  then show ?case by (simp add: window_ok_idle)
next
  case (call s lag s')
  then show ?case by (simp add: window_ok_call)
qed

lemma window_keeps_recent:
  assumes w: "window_since cap first k s" and near: "clock s + gap - first < 60"
    and gap: "0 \<le> gap"
  shows "\<exists>old rest. filter (\<lambda>ts. clock s + gap - ts < 60) (request_timestamps s) =
           old @ first # rest \<and> Suc (length rest) = k"
proof -
  from near gap have "clock s - first < 60" by simp
  with w obtain old rest where ts: "request_timestamps s = old @ first # rest"
    and k: "Suc (length rest) = k"
    by (auto simp: window_since_def)
  from w have "sorted (request_timestamps s)" by (simp add: window_since_def window_ok_def)
  with ts have "\<forall>t \<in> set rest. first \<le> t" by (auto simp: sorted_append)
  with near have "\<forall>t \<in> set rest. clock s + gap - t < 60" by auto
  then have "filter (\<lambda>ts. clock s + gap - ts < 60) rest = rest"
    by (simp add: filter_id_conv)
  with near ts have "filter (\<lambda>ts. clock s + gap - ts < 60) (request_timestamps s) =
      filter (\<lambda>ts. clock s + gap - ts < 60) old @ first # rest"
    by simp
  with k show ?thesis by blast
qed

lemma window_step:
  assumes w: "window_since cap first k s"
    and nonneg: "0 \<le> gap" "0 \<le> lag"
    and call: "respect_rate_limit cap lag (s\<lparr>clock := clock s + gap\<rparr>) = Some s'"
  shows "window_since cap first (Suc k) s'"
proof -
  let ?s = "s\<lparr>clock := clock s + gap\<rparr>"
  from w have "window_ok cap s" by (simp add: window_since_def)
  then have "window_ok cap ?s" using nonneg(1) by (rule window_ok_idle)
  then have ok: "window_ok cap s'" using nonneg(2) call by (rule window_ok_call)
  have mono: "clock s + gap \<le> clock s'"
    using respect_rate_limit_clock [OF call nonneg(2)] by simp
  have first: "first \<le> clock s'"
    using w mono nonneg(1) by (simp add: window_since_def)
  have "\<exists>old rest. request_timestamps s' = old @ first # rest \<and> Suc (length rest) = Suc k"
    if near: "clock s' - first < 60"
  proof -
    from near mono have "clock s + gap - first < 60" by simp
    from window_keeps_recent [OF w this nonneg(1)] obtain old rest where
      kept: "filter (\<lambda>ts. clock s + gap - ts < 60) (request_timestamps s) = old @ first # rest"
      and k: "Suc (length rest) = k" by blast
    from respect_rate_limit_appends [OF call] kept
    have "request_timestamps s' = old @ first # (rest @ [clock s'])" by simp
    moreover have "Suc (length (rest @ [clock s'])) = Suc k" using k by simp
    ultimately show ?thesis by blast
  qed
  with ok first show ?thesis by (simp add: window_since_def)
qed

lemma window_first:
  assumes ok: "window_ok cap s" and nonneg: "0 \<le> gap" "0 \<le> lag"
    and call: "respect_rate_limit cap lag (s\<lparr>clock := clock s + gap\<rparr>) = Some s'"
  shows "window_since cap (clock s') 1 s'"
proof -
  have "window_ok cap (s\<lparr>clock := clock s + gap\<rparr>)" using ok nonneg(1) by (rule window_ok_idle)
  then have "window_ok cap s'" using nonneg(2) call by (rule window_ok_call)
  moreover from respect_rate_limit_appends [OF call]
  have "\<exists>old rest. request_timestamps s' = old @ clock s' # rest \<and> Suc (length rest) = 1"
    by auto
  ultimately show ?thesis by (simp add: window_since_def)
qed

lemma window_last:
  assumes w: "window_since cap first cap s"
    and nonneg: "0 \<le> gap" "0 \<le> lag"
    and call: "respect_rate_limit cap lag (s\<lparr>clock := clock s + gap\<rparr>) = Some s'"
  shows "first + 60 \<le> clock s'"
proof (cases "clock s + gap - first < 60")
  case True
  let ?s = "s\<lparr>clock := clock s + gap\<rparr>"
  from window_keeps_recent [OF w True nonneg(1)] obtain old rest where
    kept: "filter (\<lambda>ts. clock s + gap - ts < 60) (request_timestamps s) = old @ first # rest"
    and k: "Suc (length rest) = cap" by blast
  from w have "window_ok cap s" by (simp add: window_since_def)
  then have "window_ok cap ?s" using nonneg(1) by (rule window_ok_idle)
  then have "length (filter (\<lambda>ts. clock s + gap - ts < 60) (request_timestamps s)) \<le> cap"
    by (simp add: window_ok_def)
  with kept k have "old = []" by simp
  with kept have "filter (\<lambda>ts. clock ?s - ts < 60) (request_timestamps ?s) = first # rest"
    by simp
  moreover have "cap \<le> Suc (length rest)" using k by simp
  ultimately show ?thesis
    using respect_rate_limit_waits [OF call nonneg(2)] by blast
next
  case False
  moreover have "clock s + gap \<le> clock s'"
    using respect_rate_limit_clock [OF call nonneg(2)] by simp
  ultimately show ?thesis by simp
qed

lemma dispatch_times_after_first:
  assumes "window_since cap first k s" and "0 < cap" and "k + length requests = cap"
    and "\<forall>(gap, lag) \<in> set (requests @ [final]). 0 \<le> gap \<and> 0 \<le> lag"
  shows "\<exists>ds. dispatch_times cap (requests @ [final]) s = Some ds \<and>
              length ds = Suc (length requests) \<and> first + 60 \<le> last ds"
  using assms
proof (induction requests arbitrary: k s)
  case Nil
  obtain gap lag where final: "final = (gap, lag)" by (cases final)
  with Nil.prems have nonneg: "0 \<le> gap" "0 \<le> lag" by auto
  from respect_rate_limit_Some [OF Nil.prems(2)] obtain s' where
    call: "respect_rate_limit cap lag (s\<lparr>clock := clock s + gap\<rparr>) = Some s'" by blast
  from Nil.prems have "window_since cap first cap s" by simp
  from window_last [OF this nonneg call] have "first + 60 \<le> clock s'" .
  with call final show ?case by simp
next
  case (Cons request requests)
  obtain gap lag where request: "request = (gap, lag)" by (cases request)
  with Cons.prems have nonneg: "0 \<le> gap" "0 \<le> lag" by auto
  from respect_rate_limit_Some [OF Cons.prems(2)] obtain s' where
    call: "respect_rate_limit cap lag (s\<lparr>clock := clock s + gap\<rparr>) = Some s'" by blast
  have "window_since cap first (Suc k) s'"
    by (rule window_step [OF Cons.prems(1) nonneg call])
  moreover have "Suc k + length requests = cap" using Cons.prems(3) by simp
  moreover have "\<forall>(gap, lag) \<in> set (requests @ [final]). 0 \<le> gap \<and> 0 \<le> lag"
    using Cons.prems(4) by simp
  ultimately obtain ds where ds: "dispatch_times cap (requests @ [final]) s' = Some ds"
    "length ds = Suc (length requests)" "first + 60 \<le> last ds"
    using Cons.IH [of "Suc k" s'] Cons.prems(2) by auto
  from ds(2) have "ds \<noteq> []" by auto
  with ds call request show ?case by simp
qed

lemma dispatch_times_spacing:
  assumes "reachable cap s" and "0 < cap" and "length requests = Suc cap"
    and "\<forall>(gap, lag) \<in> set requests. 0 \<le> gap \<and> 0 \<le> lag"
  shows "\<exists>ds. dispatch_times cap requests s = Some ds \<and>
              length ds = Suc cap \<and> hd ds + 60 \<le> last ds"
proof -
  from assms(2,3) obtain request rest where req: "requests = request # rest"
    and rest: "length rest = cap" "rest \<noteq> []"
    by (cases requests) auto
  from rest(2) obtain middle final where mid: "rest = middle @ [final]"
    by (cases rest rule: rev_cases) auto
  obtain gap lag where request: "request = (gap, lag)" by (cases request)
  with assms(4) req have nonneg: "0 \<le> gap" "0 \<le> lag" by auto
  from respect_rate_limit_Some [OF assms(2)] obtain s' where
    call: "respect_rate_limit cap lag (s\<lparr>clock := clock s + gap\<rparr>) = Some s'" by blast
  have "window_ok cap s" using assms(1) by (rule reachable_window_ok)
  then have "window_since cap (clock s') 1 s'"
    using nonneg call by (rule window_first)
  moreover have "1 + length middle = cap" using rest(1) mid by simp
  moreover have "\<forall>(gap, lag) \<in> set (middle @ [final]). 0 \<le> gap \<and> 0 \<le> lag"
    using assms(4) req mid by simp
  ultimately obtain ds where ds: "dispatch_times cap (middle @ [final]) s' = Some ds"
    "length ds = Suc (length middle)" "clock s' + 60 \<le> last ds"
    using dispatch_times_after_first [of cap "clock s'" 1 s' middle final] assms(2) by auto
  from ds(2) have "ds \<noteq> []" by auto
  with ds call request req mid rest(1) show ?thesis by simp
qed

text \<open>
  Claim C5. With a cap of \<open>N\<close> requests per minute, \<open>N > 0\<close>: when \<open>N + 1\<close> requests are
  issued one after the other, in any state the limiter can reach from an empty window,
  the timestamp recorded for the last of them is at least 60 seconds after the timestamp
  recorded for the first. (This holds however the requests are spaced, so in particular
  when all are issued within one second.) In every call the timestamps older than 60
  seconds are purged first and the call's own timestamp is appended to what is kept; a
  call that finds the window at the cap records its timestamp no earlier than 60 seconds
  after the oldest timestamp kept.
\<close>

theorem rate_limit_spacing:
  assumes "reachable cap s" and "0 < cap" and "length requests = Suc cap"
    and "\<forall>(gap, lag) \<in> set requests. 0 \<le> gap \<and> 0 \<le> lag"
  shows "(\<exists>ds. dispatch_times cap requests s = Some ds \<and>
              length ds = Suc cap \<and> hd ds + 60 \<le> last ds)
       \<and> (\<forall>s s' lag. 0 \<le> lag \<and> respect_rate_limit cap lag s = Some s' \<longrightarrow>
             request_timestamps s' =
               filter (\<lambda>ts. clock s - ts < 60) (request_timestamps s) @ [clock s'] \<and>
             (\<forall>oldest rest.
                filter (\<lambda>ts. clock s - ts < 60) (request_timestamps s) = oldest # rest \<and>
                cap \<le> Suc (length rest) \<longrightarrow> oldest + 60 \<le> clock s'))"
proof (intro conjI allI impI; (elim conjE)?)
  show "\<exists>ds. dispatch_times cap requests s = Some ds \<and>
              length ds = Suc cap \<and> hd ds + 60 \<le> last ds"
    by (rule dispatch_times_spacing [OF assms])
next
  fix s s' :: limiter and lag :: real
  assume "respect_rate_limit cap lag s = Some s'"
  then show "request_timestamps s' =
      filter (\<lambda>ts. clock s - ts < 60) (request_timestamps s) @ [clock s']"
    by (rule respect_rate_limit_appends)
next
  fix s s' :: limiter and lag oldest :: real and rest :: "real list"
  assume "0 \<le> lag" "respect_rate_limit cap lag s = Some s'"
    "filter (\<lambda>ts. clock s - ts < 60) (request_timestamps s) = oldest # rest"
    "cap \<le> Suc (length rest)"
  then show "oldest + 60 \<le> clock s'"
    using respect_rate_limit_waits by blast
qed

theorem rate_limit_spacing_witness:
  "dispatch_times 2 [(0, 1 / 10), (2 / 10, 0), (3 / 10, 1 / 20)]
     \<lparr>clock = 100, request_timestamps = []\<rparr> = Some [1001 / 10, 1003 / 10, 3203 / 20]
   \<and> (1001 / 10 :: real) + 60 \<le> 3203 / 20
   \<and> (\<exists>ds. dispatch_times MAX_REQUESTS_PER_MINUTE (replicate 31 (1 / 100, 0))
              \<lparr>clock = 0, request_timestamps = []\<rparr> = Some ds \<and>
            length ds = 31 \<and> hd ds + 60 \<le> last ds)"
proof -
  have e: "dispatch_times 2 [(0, 1 / 10), (2 / 10, 0), (3 / 10, 1 / 20)]
     \<lparr>clock = 100, request_timestamps = []\<rparr> = Some [1001 / 10, 1003 / 10, 3203 / 20]"
    by (simp add: respect_rate_limit_def Let_def)
  have r: "reachable 2 \<lparr>clock = 100, request_timestamps = []\<rparr>"
    by (rule reachable.start)
  have r': "reachable MAX_REQUESTS_PER_MINUTE \<lparr>clock = 0, request_timestamps = []\<rparr>"
    by (rule reachable.start)
  from rate_limit_spacing [OF r, of "[(0, 1 / 10), (2 / 10, 0), (3 / 10, 1 / 20)]"]
  have "(1001 / 10 :: real) + 60 \<le> 3203 / 20" unfolding e by simp
  moreover from rate_limit_spacing [OF r', of "replicate 31 (1 / 100, 0)"]
  have "\<exists>ds. dispatch_times MAX_REQUESTS_PER_MINUTE (replicate 31 (1 / 100, 0))
              \<lparr>clock = 0, request_timestamps = []\<rparr> = Some ds \<and>
            length ds = 31 \<and> hd ds + 60 \<le> last ds"
    by (simp add: MAX_REQUESTS_PER_MINUTE_def)
  ultimately show ?thesis using e by simp
qed

section \<open>Affiliate link: a promotion link or the input URL\<close>




section \<open>Reply composer: discount, rating and title\<close>

lemma fl_bounds:
  assumes "0 \<le> x"
  shows "(1 - 1 / 2 ^ 53) * x \<le> fl x" and "fl x \<le> (1 + 1 / 2 ^ 53) * x"
proof -
  have "\<bar>fl x - x\<bar> \<le> x / 2 ^ 53" using fl_close [of x] assms by simp
  then have "fl x - x \<le> x / 2 ^ 53" and "x - fl x \<le> x / 2 ^ 53"
    unfolding abs_le_iff by simp_all
  then show "(1 - 1 / 2 ^ 53) * x \<le> fl x" and "fl x \<le> (1 + 1 / 2 ^ 53) * x"
    by (simp_all add: algebra_simps)
qed

lemma fl_scaled:
  assumes "lo * t \<le> v" and "v \<le> hi * t" and "0 \<le> lo" and "0 \<le> t"
  shows "(1 - 1 / 2 ^ 53) * lo * t \<le> fl v" and "fl v \<le> (1 + 1 / 2 ^ 53) * hi * t"
proof -
  have v: "0 \<le> v" using assms(1,3,4) by (meson mult_nonneg_nonneg order_trans)
  have "(1 - 1 / 2 ^ 53) * lo * t = (1 - 1 / 2 ^ 53) * (lo * t)" by simp
  also have "\<dots> \<le> (1 - 1 / 2 ^ 53) * v"
    using assms(1) by (intro mult_left_mono) auto
  also have "\<dots> \<le> fl v" by (rule fl_bounds(1) [OF v])
  finally show "(1 - 1 / 2 ^ 53) * lo * t \<le> fl v" .
  have "fl v \<le> (1 + 1 / 2 ^ 53) * v" by (rule fl_bounds(2) [OF v])
  also have "\<dots> \<le> (1 + 1 / 2 ^ 53) * (hi * t)"
    using assms(2) by (intro mult_left_mono) auto
  finally show "fl v \<le> (1 + 1 / 2 ^ 53) * hi * t" by simp
qed

lemma discount_percent_close:
  assumes "0 \<le> current" and "current < original"
  shows "\<exists>d. discount_percent original current = Some d \<and>
             \<bar>of_int d - 100 * (original - current) / original\<bar> \<le> 1 / 2 + 1 / 2 ^ 44"
proof -
  define u :: rat where "u = 1 / 2 ^ 53"
  define t where "t = original - current"
  define y where "y = t / original"
  have o: "0 < original" and t: "0 < t" using assms by (auto simp: t_def)
  have y: "0 < y" "y \<le> 1" using o t assms by (auto simp: y_def t_def)
  define a where "a = fsub original current"
  define b where "b = fl (a / original)"
  define c where "c = fmul b 100"
  have a: "(1 - u) * t \<le> a" "a \<le> (1 + u) * t"
    using fl_bounds [of t] t by (simp_all add: a_def fsub_def t_def u_def)
  have "(1 - u) * t / original \<le> a / original" "a / original \<le> (1 + u) * t / original"
    using a o by (simp_all add: divide_right_mono)
  then have q: "(1 - u) * y \<le> a / original" "a / original \<le> (1 + u) * y"
    by (simp_all add: y_def)
  have u1: "0 \<le> 1 - u" by (simp add: u_def)
  have b: "(1 - u) * (1 - u) * y \<le> b" "b \<le> (1 + u) * (1 + u) * y"
    using fl_scaled [OF q u1] y(1) by (simp_all add: b_def u_def)
  have "((1 - u) * (1 - u)) * (100 * y) \<le> b * 100" "b * 100 \<le> ((1 + u) * (1 + u)) * (100 * y)"
    using b by simp_all
  moreover have "0 \<le> (1 - u) * (1 - u)" by simp
  moreover have "0 \<le> 100 * y" using y(1) by simp
  ultimately have c: "(1 - u) * ((1 - u) * (1 - u)) * (100 * y) \<le> c"
    "c \<le> (1 + u) * ((1 + u) * (1 + u)) * (100 * y)"
    using fl_scaled [of "(1 - u) * (1 - u)" "100 * y" "b * 100" "(1 + u) * (1 + u)"]
    by (simp_all add: c_def fmul_def u_def)
  have x: "0 \<le> 100 * y" "100 * y \<le> 100" using y by simp_all
  have up: "c - 100 * y \<le> 1 / 2 ^ 44"
  proof -
    have "c - 100 * y \<le> ((1 + u) * ((1 + u) * (1 + u)) - 1) * (100 * y)"
      using c(2) by (simp add: algebra_simps)
    also have "\<dots> \<le> ((1 + u) * ((1 + u) * (1 + u)) - 1) * 100"
      using x by (intro mult_left_mono) (auto simp: u_def)
    also have "\<dots> \<le> 1 / 2 ^ 44" by (simp add: u_def)
    finally show ?thesis .
  qed
  have down: "100 * y - c \<le> 1 / 2 ^ 44"
  proof -
    have "100 * y - c \<le> (1 - (1 - u) * ((1 - u) * (1 - u))) * (100 * y)"
      using c(1) by (simp add: algebra_simps)
    also have "\<dots> \<le> (1 - (1 - u) * ((1 - u) * (1 - u))) * 100"
      using x by (intro mult_left_mono) (auto simp: u_def)
    also have "\<dots> \<le> 1 / 2 ^ 44" by (simp add: u_def)
    finally show ?thesis .
  qed
  have near: "\<bar>c - 100 * y\<bar> \<le> 1 / 2 ^ 44"
    unfolding abs_le_iff using up down by simp
  have d: "discount_percent original current = Some (py_round c)"
    using o by (simp add: discount_percent_def fdiv_def a_def b_def c_def)
  have "\<bar>of_int (py_round c) - 100 * y\<bar> \<le> \<bar>of_int (py_round c) - c\<bar> + \<bar>c - 100 * y\<bar>"
    by simp
  also have "\<dots> \<le> 1 / 2 + 1 / 2 ^ 44"
    using py_round_close [of c] near by (intro add_mono) auto
  finally have "\<bar>of_int (py_round c) - 100 * (original - current) / original\<bar> \<le> 1 / 2 + 1 / 2 ^ 44"
    by (simp add: y_def t_def)
  with d show ?thesis by blast
qed

lemma compose_reply_plain:
  assumes "\<not> shows_discount product"
  shows "compose_reply product link =
           Some (reply_head product @ reply_shipping product @ reply_rating product @ reply_tail link)"
  using assms
  by (auto simp: compose_reply_def shows_discount_def reply_head_def reply_shipping_def
      reply_rating_def reply_tail_def Let_def split: option.splits)

lemma compose_reply_discount:
  assumes "original_price product = Some original" and "original \<noteq> 0"
    and "price product < original"
    and "discount_percent original (price product) = Some discount"
  shows "compose_reply product link =
           Some (reply_head product @ discount_line original discount @ reply_shipping product @
                 reply_rating product @ reply_tail link)"
  using assms
  by (auto simp: compose_reply_def reply_head_def reply_shipping_def
      reply_rating_def reply_tail_def Let_def split: option.splits)

lemma discount_percent_Some:
  "original \<noteq> 0 \<Longrightarrow> \<exists>discount. discount_percent original current = Some discount"
  by (simp add: discount_percent_def fdiv_def)

lemma compose_reply_shape:
  "\<exists>front. compose_reply product link =
      Some (front @ reply_rating product @ reply_tail link) \<and> Glyph 0x2B50 \<notin> set front"
proof (cases "shows_discount product")
  case False
  have "Glyph 0x2B50 \<notin> set (reply_head product @ reply_shipping product)"
    by (auto simp: reply_head_def reply_shipping_def split: option.splits)
  with compose_reply_plain [OF False, of link] show ?thesis
    by (metis append.assoc)
next
  case True
  then obtain original where o: "original_price product = Some original" "original \<noteq> 0"
    "price product < original"
    by (auto simp: shows_discount_def split: option.splits)
  from discount_percent_Some [OF o(2)] obtain discount where
    d: "discount_percent original (price product) = Some discount" by blast
  have "Glyph 0x2B50 \<notin>
      set (reply_head product @ discount_line original discount @ reply_shipping product)"
    by (auto simp: reply_head_def reply_shipping_def discount_line_def split: option.splits)
  with compose_reply_discount [OF o d, of link] show ?thesis
    by (metis append.assoc)
qed

text \<open>
  Claim C6, as the code has it. For every product record whose rating is present and is
  not 0, the composed reply contains the rating line showing \<open>rating/5\<close>; for a record
  whose rating is absent or is 0 the reply has no rating line. The truth value of the
  field decides, so a rating of 0 is treated as an absent one.
\<close>

theorem rating_line_iff_rating_nonzero:
  "\<exists>response. compose_reply product link = Some response \<and>
     (\<forall>r. rating product = Some r \<and> r \<noteq> 0 \<longrightarrow> sublist (rating_line r) response) \<and>
     (rating product = None \<or> rating product = Some 0 \<longrightarrow> Glyph 0x2B50 \<notin> set response)"
proof -
  from compose_reply_shape [of product link] obtain front where
    response: "compose_reply product link =
      Some (front @ reply_rating product @ reply_tail link)"
    and front: "Glyph 0x2B50 \<notin> set front" by blast
  have "sublist (rating_line r) (front @ reply_rating product @ reply_tail link)"
    if "rating product = Some r" "r \<noteq> 0" for r
    using that by (auto simp: reply_rating_def sublist_def)
  moreover have "Glyph 0x2B50 \<notin> set (front @ reply_rating product @ reply_tail link)"
    if "rating product = None \<or> rating product = Some 0"
    using that front by (auto simp: reply_rating_def reply_tail_def)
  ultimately show ?thesis using response by blast
qed

theorem rating_line_iff_rating_nonzero_witness:
  "\<exists>response.
     compose_reply \<lparr>title = JStr ''Lamp'', price = 80, product_id = ''1234567890'',
                     original_price = None, rating = Some (9 / 2), shipping_cost = None\<rparr>
       (JStr ''https://s.click.aliexpress.com/e/_new'') = Some response \<and>
     sublist (rating_line (9 / 2)) response"
  using rating_line_iff_rating_nonzero [of
      "\<lparr>title = JStr ''Lamp'', price = 80, product_id = ''1234567890'',
        original_price = None, rating = Some (9 / 2), shipping_cost = None\<rparr>"
      "JStr ''https://s.click.aliexpress.com/e/_new''"]
  by auto

text \<open>
  The claim as stated fails for a rating that is present and equal to 0: the reply then
  has no rating line.
\<close>

theorem rating_zero_counterexample:
  "rating \<lparr>title = JStr ''Lamp'', price = 80, product_id = ''1234567890'',
           original_price = None, rating = Some 0, shipping_cost = None\<rparr> = Some 0
   \<and> compose_reply \<lparr>title = JStr ''Lamp'', price = 80, product_id = ''1234567890'',
                      original_price = None, rating = Some 0, shipping_cost = None\<rparr>
       (JStr ''https://s.click.aliexpress.com/e/_new'')
     = Some [Glyph 0x1F6CD, Glyph 0xFE0F, Text '' <b>'', Json_value (JStr ''Lamp''),
             Text ''</b>\<newline>\<newline>'',
             Glyph 0x1F4B0, Text '' <b>Current Price:</b> $'', Float_value 80, Text ''\<newline>'',
             Text ''\<newline>'', Glyph 0x1F517, Text '' <b>Affiliate Link:</b>\<newline>'',
             Json_value (JStr ''https://s.click.aliexpress.com/e/_new'')]
   \<and> \<not> sublist (rating_line 0)
         [Glyph 0x1F6CD, Glyph 0xFE0F, Text '' <b>'', Json_value (JStr ''Lamp''),
          Text ''</b>\<newline>\<newline>'',
          Glyph 0x1F4B0, Text '' <b>Current Price:</b> $'', Float_value 80, Text ''\<newline>'',
          Text ''\<newline>'', Glyph 0x1F517, Text '' <b>Affiliate Link:</b>\<newline>'',
          Json_value (JStr ''https://s.click.aliexpress.com/e/_new'')]"
proof -
  let ?response =
    "[Glyph 0x1F6CD, Glyph 0xFE0F, Text '' <b>'', Json_value (JStr ''Lamp''),
      Text ''</b>\<newline>\<newline>'',
      Glyph 0x1F4B0, Text '' <b>Current Price:</b> $'', Float_value 80, Text ''\<newline>'',
      Text ''\<newline>'', Glyph 0x1F517, Text '' <b>Affiliate Link:</b>\<newline>'',
      Json_value (JStr ''https://s.click.aliexpress.com/e/_new'')]"
  have "\<not> sublist (rating_line 0) ?response"
  proof
    assume "sublist (rating_line 0) ?response"
    then have "set (rating_line 0) \<subseteq> set ?response" by (rule set_mono_sublist)
    then show False by (simp add: rating_line_def)
  qed
  then show ?thesis
    by (simp add: compose_reply_def Let_def)
qed

text \<open>
  Claim C8, as the code has it. The discount is computed in binary floating point, as
  \<open>round(((original - price) / original) * 100)\<close>. For every product record whose
  original price is present and above a price that is not negative, the reply shows a
  discount line, and the integer shown differs from the exact percentage
  \<open>100 * (original - price) / original\<close> by at most \<open>1/2 + 2 ^ -44\<close>: it is the exact
  percentage rounded to the nearest integer, except possibly when the exact percentage
  lies within \<open>2 ^ -44\<close> of a half. For a price of 80 and an original price of 100 the
  discount shown is 20.
\<close>

theorem discount_close_to_exact_percentage:
  assumes "original_price product = Some original"
    and "0 \<le> price product" and "price product < original"
  shows "(\<exists>response discount.
            compose_reply product link = Some response \<and>
            sublist (discount_line original discount) response \<and>
            discount_percent original (price product) = Some discount \<and>
            \<bar>of_int discount - 100 * (original - price product) / original\<bar>
              \<le> 1 / 2 + 1 / 2 ^ 44)
       \<and> discount_percent 100 80 = Some 20"
proof -
  from discount_percent_close [OF assms(2,3)] obtain discount where
    d: "discount_percent original (price product) = Some discount"
    and close: "\<bar>of_int discount - 100 * (original - price product) / original\<bar>
       \<le> 1 / 2 + 1 / 2 ^ 44" by blast
  from assms have "original \<noteq> 0" by auto
  from compose_reply_discount [OF assms(1) this assms(3) d, of link]
  have "compose_reply product link =
      Some (reply_head product @ discount_line original discount @
            (reply_shipping product @ reply_rating product @ reply_tail link))" by simp
  moreover have "sublist (discount_line original discount)
      (reply_head product @ discount_line original discount @
       (reply_shipping product @ reply_rating product @ reply_tail link))"
    unfolding sublist_def by blast
  moreover have "discount_percent 100 80 = Some 20"
  proof -
    from discount_percent_close [of 80 100] obtain k where
      k: "discount_percent 100 80 = Some k"
      and "\<bar>of_int k - 100 * (100 - 80) / (100 :: rat)\<bar> \<le> 1 / 2 + 1 / 2 ^ 44" by auto
    then have "\<bar>(of_int k :: rat) - 20\<bar> < 1" by simp
    then have "\<bar>(of_int (k - 20) :: rat)\<bar> < 1" by simp
    then have "\<bar>k - 20\<bar> < 1" by (metis of_int_1 of_int_abs of_int_less_iff)
    then have "k = 20" by simp
    with k show ?thesis by simp
  qed
  ultimately show ?thesis using d close by blast
qed

theorem discount_close_to_exact_percentage_witness:
  "\<exists>response.
     compose_reply \<lparr>title = JStr ''Lamp'', price = 80, product_id = ''1234567890'',
                     original_price = Some 100, rating = None, shipping_cost = None\<rparr>
       (JStr ''https://s.click.aliexpress.com/e/_new'') = Some response \<and>
     sublist (discount_line 100 20) response"
  using discount_close_to_exact_percentage [of
      "\<lparr>title = JStr ''Lamp'', price = 80, product_id = ''1234567890'',
        original_price = Some 100, rating = None, shipping_cost = None\<rparr>"
      100 "JStr ''https://s.click.aliexpress.com/e/_new''"]
  by auto

text \<open>
  The claim as stated fails where the exact percentage is a tie that the floating-point
  product misses: for a price of 425 and an original price of 1000 the exact percentage
  is 57.5, which rounds to 58 (to even, and also away from zero); the code multiplies the
  float nearest to 0.575 by 100, gets a float just below 57.5, and shows 57.
\<close>

theorem discount_tie_counterexample:
  "compose_reply \<lparr>title = JStr ''Lamp'', price = 425, product_id = ''1234567890'',
                   original_price = Some 1000, rating = None, shipping_cost = None\<rparr>
     (JStr ''https://s.click.aliexpress.com/e/_new'')
     = Some [Glyph 0x1F6CD, Glyph 0xFE0F, Text '' <b>'', Json_value (JStr ''Lamp''),
             Text ''</b>\<newline>\<newline>'',
             Glyph 0x1F4B0, Text '' <b>Current Price:</b> $'', Float_value 425, Text ''\<newline>'',
             Glyph 0x1F3F7, Glyph 0xFE0F, Text '' <b>Original Price:</b> $'', Float_value 1000,
             Text '' (Save '', Int_value 57, Text ''%)\<newline>'',
             Text ''\<newline>'', Glyph 0x1F517, Text '' <b>Affiliate Link:</b>\<newline>'',
             Json_value (JStr ''https://s.click.aliexpress.com/e/_new'')]
   \<and> py_round (100 * (1000 - 425) / 1000) = 58"
proof -
  have "discount_percent 1000 425 = Some 57" by code_simp
  moreover have "py_round (100 * (1000 - 425) / 1000) = 58" by code_simp
  ultimately show ?thesis
    by (simp add: compose_reply_def Let_def discount_line_def)
qed

lemma sanitize_product_title_bounds:
  "sanitize_product_title t \<noteq> [] \<and> length (sanitize_product_title t) \<le> 100"
  by (simp add: sanitize_product_title_def)

text \<open>
  Claim C7 does not hold of the code: \<open>sanitize_product_title\<close> yields the placeholder
  for an empty title and cuts a long one to 100 characters, but no function calls it.
  \<open>get_product_details\<close> takes the placeholder only when the key \<open>title\<close> is absent, so an
  empty title stays empty, and the reply shows a title of 101 characters in full.
\<close>

theorem title_neither_defaulted_nor_cut:
  "product_of_response
      (\<lambda>s. Some (JObj [(''products'', JArr [JObj [(''title'', JStr [])]])]))
      (\<lambda>s. None) ''1234567890''
      (JObj [(''aliexpress.ds.product.get_response'',
             JObj [(''result'', JStr ''text of the result'')])])
     = Some \<lparr>title = JStr [], price = 0, product_id = ''1234567890'',
             original_price = None, rating = None, shipping_cost = None\<rparr>
   \<and> sanitize_product_title [] = ''Unknown Product''
   \<and> compose_reply \<lparr>title = JStr (replicate 101 CHR ''a''), price = 80,
                      product_id = ''1234567890'', original_price = None, rating = None,
                      shipping_cost = None\<rparr>
       (JStr ''https://s.click.aliexpress.com/e/_new'')
     = Some [Glyph 0x1F6CD, Glyph 0xFE0F, Text '' <b>'', Json_value (JStr (replicate 101 CHR ''a'')),
             Text ''</b>\<newline>\<newline>'',
             Glyph 0x1F4B0, Text '' <b>Current Price:</b> $'', Float_value 80, Text ''\<newline>'',
             Text ''\<newline>'', Glyph 0x1F517, Text '' <b>Affiliate Link:</b>\<newline>'',
             Json_value (JStr ''https://s.click.aliexpress.com/e/_new'')]
   \<and> length (replicate 101 CHR ''a'') = 101
   \<and> length (sanitize_product_title (replicate 101 CHR ''a'')) = 100"
proof -
  have "fl 0 = 0" by (simp add: fl_def)
  then show ?thesis
    by (simp add: product_of_response_def amount_of_def AE_DS_PRODUCT_GET_def Let_def
        compose_reply_def sanitize_product_title_def)
qed

section \<open>Telemetry: counts and last-seen follow the event log\<close>

lemma log_user_action_fields:
  "user_actions (log_user_action now uid act s) =
     user_actions s @ [\<lparr>user_id = uid, action_type = act, timestamp = now\<rparr>]"
  "action_counts (log_user_action now uid act s) =
     (action_counts s)(act \<mapsto> count_of (action_counts s) act + 1)"
  "user_last_active (log_user_action now uid act s) = (user_last_active s)(uid \<mapsto> now)"
  by (simp_all add: log_user_action_def save_analytics_to_file_def Let_def)

lemma consistent_empty: "consistent empty_telemetry"
  by (simp add: consistent_def empty_telemetry_def count_of_def events_of_type_def
      latest_of_user_def)

lemma consistent_step:
  assumes "consistent s"
  shows "consistent (log_user_action now uid act s)"
proof -
  have c: "count_of (action_counts s) a = int (events_of_type a (user_actions s))" for a
    using assms by (simp add: consistent_def)
  have l: "user_last_active s u = latest_of_user u (user_actions s)" for u
    using assms by (simp add: consistent_def)
  have "count_of (action_counts (log_user_action now uid act s)) a =
        int (events_of_type a (user_actions (log_user_action now uid act s)))" for a
    using c [of a] c [of act]
    by (simp add: log_user_action_fields count_of_def events_of_type_def)
  moreover have "user_last_active (log_user_action now uid act s) u =
        latest_of_user u (user_actions (log_user_action now uid act s))" for u
    using l [of u] by (simp add: log_user_action_fields latest_of_user_def)
  ultimately show ?thesis
    by (simp add: consistent_def)
qed

lemma consistent_run: "consistent s \<Longrightarrow> consistent (log_user_actions cs s)"
  by (induction cs s rule: log_user_actions.induct) (simp_all add: consistent_step)

lemma log_user_actions_log:
  "user_actions (log_user_actions cs s) =
     user_actions s @
       map (\<lambda>(now, uid, act). \<lparr>user_id = uid, action_type = act, timestamp = now\<rparr>) cs"
  by (induction cs s rule: log_user_actions.induct) (simp_all add: log_user_action_fields)


text \<open>
  Claim C9. Starting from the empty telemetry state, after any sequence of calls of
  \<open>log_user_action\<close> the log holds exactly one event per call, in call order; the count
  stored for every action type is the number of events of that type in the log; and the
  last-seen entry of every user is the timestamp of that user's latest event in the log.
  One further call appends exactly one event, adds one to the count of its action type
  and leaves every other count as it was, and sets the last-seen entry of its user and
  leaves every other entry as it was.
\<close>

theorem telemetry_counts_follow_log:
  fixes cs :: "(int \<times> int \<times> string) list" and now uid :: int and act :: string
  defines "s \<equiv> log_user_actions cs empty_telemetry"
  defines "s' \<equiv> log_user_action now uid act s"
  shows "user_actions s =
           map (\<lambda>(now, uid, act). \<lparr>user_id = uid, action_type = act, timestamp = now\<rparr>) cs
       \<and> (\<forall>a. count_of (action_counts s) a = int (events_of_type a (user_actions s)))
       \<and> (\<forall>u. user_last_active s u = latest_of_user u (user_actions s))
       \<and> user_actions s' =
           user_actions s @ [\<lparr>user_id = uid, action_type = act, timestamp = now\<rparr>]
       \<and> count_of (action_counts s') act = count_of (action_counts s) act + 1
       \<and> (\<forall>a. a \<noteq> act \<longrightarrow> action_counts s' a = action_counts s a)
       \<and> user_last_active s' uid = Some now
       \<and> (\<forall>u. u \<noteq> uid \<longrightarrow> user_last_active s' u = user_last_active s u)"
proof -
  have "consistent s"
    unfolding s_def by (rule consistent_run [OF consistent_empty])
  then have inv:
    "(\<forall>a. count_of (action_counts s) a = int (events_of_type a (user_actions s))) \<and>
     (\<forall>u. user_last_active s u = latest_of_user u (user_actions s))"
    by (simp add: consistent_def)
  have log: "user_actions s =
      map (\<lambda>(now, uid, act). \<lparr>user_id = uid, action_type = act, timestamp = now\<rparr>) cs"
    unfolding s_def by (simp add: log_user_actions_log empty_telemetry_def)
  have step:
    "user_actions s' = user_actions s @ [\<lparr>user_id = uid, action_type = act, timestamp = now\<rparr>]"
    "count_of (action_counts s') act = count_of (action_counts s) act + 1"
    "\<forall>a. a \<noteq> act \<longrightarrow> action_counts s' a = action_counts s a"
    "user_last_active s' uid = Some now"
    "\<forall>u. u \<noteq> uid \<longrightarrow> user_last_active s' u = user_last_active s u"
    unfolding s'_def by (simp_all add: log_user_action_fields count_of_def)
  from inv log step show ?thesis by blast
qed

theorem telemetry_counts_follow_log_witness:
  "count_of (action_counts (log_user_actions
      [(10, 1, ''message_received''), (11, 1, ''link_processed_successfully''),
       (12, 2, ''message_received''), (15, 2, ''product_not_found'')] empty_telemetry))
      ''message_received'' = 2
   \<and> user_last_active (log_user_actions
      [(10, 1, ''message_received''), (11, 1, ''link_processed_successfully''),
       (12, 2, ''message_received''), (15, 2, ''product_not_found'')] empty_telemetry) 1
     = Some 11
   \<and> action_counts (log_user_action 20 2 ''message_received'' (log_user_actions
      [(10, 1, ''message_received''), (11, 1, ''link_processed_successfully''),
       (12, 2, ''message_received''), (15, 2, ''product_not_found'')] empty_telemetry))
      ''product_not_found'' = Some 1"
  using telemetry_counts_follow_log [of
      "[(10, 1, ''message_received''), (11, 1, ''link_processed_successfully''),
        (12, 2, ''message_received''), (15, 2, ''product_not_found'')]"
      20 2 "''message_received''"]
  by (simp add: events_of_type_def latest_of_user_def log_user_action_def count_of_def
      empty_telemetry_def Let_def)

end
